theory Spec2Isabelle
  imports Main "HOL-Library.AList" "HOL-Library.Extended_Nat" "HOL-Library.Monad_Syntax"
begin

unbundle bit_operations_syntax

section \<open>Common types\<close>

text \<open>
  \<^verbatim>\<open>frame_id_t\<close> and \<^verbatim>\<open>page_id_t\<close> are 32-bit signed integers in the sources; they are
  modelled as \<open>int\<close>. \<^verbatim>\<open>size_t\<close> counters are natural numbers below \<open>2 ^ 64\<close>; the places
  where the code relies on unsigned arithmetic (the cast of a frame id, subtraction, the
  decrement of a counter) are written out.
\<close>

type_synonym frame_id_t = int
type_synonym page_id_t = int

definition INVALID_PAGE_ID :: page_id_t where
  "INVALID_PAGE_ID = -1"

definition SIZE_MAX :: nat where
  "SIZE_MAX = 2 ^ 64 - 1"

definition INT64_MAX :: int where
  "INT64_MAX = 2 ^ 63 - 1"

text \<open>\<^verbatim>\<open>static_cast<size_t>(frame_id)\<close>: a negative value wraps around.\<close>

definition size_t_of_int :: "int \<Rightarrow> nat" where
  "size_t_of_int i = nat (i mod 2 ^ 64)"

text \<open>\<^verbatim>\<open>static_cast<int64_t>(x)\<close> of a \<^verbatim>\<open>size_t\<close>.\<close>

definition int64_of_size_t :: "nat \<Rightarrow> int" where
  "int64_of_size_t x = (if x < 2 ^ 63 then int x else int x - 2 ^ 64)"

text \<open>\<^verbatim>\<open>static_cast<frame_id_t>(x)\<close> of a \<^verbatim>\<open>size_t\<close>: the low 32 bits, read as a signed value.\<close>

definition int32_of_size_t :: "nat \<Rightarrow> int" where
  "int32_of_size_t x =
     (if x mod 2 ^ 32 < 2 ^ 31 then int (x mod 2 ^ 32) else int (x mod 2 ^ 32) - 2 ^ 32)"

text \<open>Unsigned subtraction, increment and decrement of \<^verbatim>\<open>size_t\<close> values.\<close>

definition size_t_sub :: "nat \<Rightarrow> nat \<Rightarrow> nat" where
  "size_t_sub a b = (if b \<le> a then a - b else a + 2 ^ 64 - b)"

definition size_t_inc :: "nat \<Rightarrow> nat" where
  "size_t_inc a = (a + 1) mod 2 ^ 64"

definition size_t_dec :: "nat \<Rightarrow> nat" where
  "size_t_dec a = size_t_sub a 1"

text \<open>
  A raised \<^verbatim>\<open>bustub::Exception\<close> and a failed \<^verbatim>\<open>BUSTUB_ASSERT\<close> are values; an operation
  that can fault returns \<open>fault + result\<close>.
\<close>

datatype fault = Exception string | AssertionFailed string

section \<open>LRU-K replacer (the version with \<^verbatim>\<open>frame_table\<close>)\<close>

text \<open>
  \<^verbatim>\<open>frame_table\<close> is a \<^verbatim>\<open>std::unordered_map<frame_id_t, FrameInfo>\<close>. It is modelled as an
  association list; the order of the list stands for the (unspecified) iteration order
  of the map, and every statement below is proved for an arbitrary order.
\<close>

record FrameInfo =
  history :: "nat list"
  is_evictable :: bool
  earliest_timestamp :: nat

text \<open>
  Modelled from the spec: the value-initialised \<^verbatim>\<open>FrameInfo\<close> that \<^verbatim>\<open>frame_table[frame_id]\<close>
  creates for an untracked frame. The header declaring \<^verbatim>\<open>FrameInfo\<close> is not among the
  sources; a fresh frame has an empty history and is not evictable (the pool marks a
  frame non-evictable right after its first access, and \<open>Size\<close> counts evictable frames).
\<close>

definition FrameInfo_default :: FrameInfo where
  "FrameInfo_default = \<lparr>history = [], is_evictable = False, earliest_timestamp = 0\<rparr>"

record LRUKReplacer =
  frame_table :: "(frame_id_t \<times> FrameInfo) list"
  current_timestamp :: nat
  curr_size :: nat
  replacer_size :: nat
  lru_k :: nat

definition LRUKReplacer_init :: "nat \<Rightarrow> nat \<Rightarrow> LRUKReplacer" where
  "LRUKReplacer_init num_frames k =
     \<lparr>frame_table = [], current_timestamp = 0, curr_size = 0,
      replacer_size = num_frames, lru_k = k\<rparr>"

definition CalculateBackwardKDistance :: "LRUKReplacer \<Rightarrow> FrameInfo \<Rightarrow> nat" where
  "CalculateBackwardKDistance r frame_info =
     (if length (history frame_info) < lru_k r then SIZE_MAX
      else size_t_sub (current_timestamp r) (hd (history frame_info)))"

text \<open>
  The loop of \<open>Evict\<close> over the frame table; the accumulator is
  \<open>(candidate, candidate_distance, candidate_earliest)\<close>.
\<close>

fun Evict_loop ::
  "LRUKReplacer \<Rightarrow> (frame_id_t \<times> FrameInfo) list \<Rightarrow> frame_id_t \<times> nat \<times> nat
     \<Rightarrow> frame_id_t \<times> nat \<times> nat" where
  "Evict_loop r [] acc = acc"
| "Evict_loop r ((fid, frame_info) # rest) (candidate, candidate_distance, candidate_earliest) =
     (if \<not> is_evictable frame_info
      then Evict_loop r rest (candidate, candidate_distance, candidate_earliest)
      else
        let distance = CalculateBackwardKDistance r frame_info;
            earliest = earliest_timestamp frame_info
        in
          if candidate = -1 then Evict_loop r rest (fid, distance, earliest)
          else if distance > candidate_distance then Evict_loop r rest (fid, distance, earliest)
          else if distance = candidate_distance \<and> distance = SIZE_MAX
                  \<and> earliest < candidate_earliest
          then Evict_loop r rest (fid, candidate_distance, earliest)
          else Evict_loop r rest (candidate, candidate_distance, candidate_earliest))"

text \<open>
  \<open>Evict\<close> returns the victim (\<open>None\<close> for \<^verbatim>\<open>false\<close>, where \<^verbatim>\<open>*frame_id\<close> is left alone) and
  the new state.
\<close>

definition Evict :: "LRUKReplacer \<Rightarrow> frame_id_t option \<times> LRUKReplacer" where
  "Evict r =
     (if curr_size r = 0 then (None, r)
      else
        let candidate = fst (Evict_loop r (frame_table r) (-1, 0, 0)) in
          if candidate \<noteq> -1
          then (Some candidate,
                r\<lparr>frame_table := AList.delete candidate (frame_table r),
                  curr_size := size_t_dec (curr_size r)\<rparr>)
          else (None, r))"

definition RecordAccess :: "LRUKReplacer \<Rightarrow> frame_id_t \<Rightarrow> fault + LRUKReplacer" where
  "RecordAccess r frame_id =
     (if size_t_of_int frame_id > replacer_size r then Inl (Exception ''frame_id is invalid'')
      else
        let ts = size_t_inc (current_timestamp r);
            frame_info = (case map_of (frame_table r) frame_id of
                            None \<Rightarrow> FrameInfo_default | Some fi \<Rightarrow> fi);
            h1 = history frame_info @ [ts];
            h2 = (if length h1 > lru_k r then tl h1 else h1);
            e = (if length h2 = 1 then ts else earliest_timestamp frame_info)
        in Inr (r\<lparr>current_timestamp := ts,
                  frame_table :=
                    AList.update frame_id
                      (frame_info\<lparr>history := h2, earliest_timestamp := e\<rparr>) (frame_table r)\<rparr>))"

definition SetEvictable :: "LRUKReplacer \<Rightarrow> frame_id_t \<Rightarrow> bool \<Rightarrow> fault + LRUKReplacer" where
  "SetEvictable r frame_id set_evictable =
     (if size_t_of_int frame_id > replacer_size r then Inl (Exception ''frame_id is invalid'')
      else
        case map_of (frame_table r) frame_id of
          None \<Rightarrow> Inr r
        | Some frame_info \<Rightarrow>
            if is_evictable frame_info = set_evictable then Inr r
            else Inr (r\<lparr>frame_table :=
                           AList.update frame_id (frame_info\<lparr>is_evictable := set_evictable\<rparr>)
                             (frame_table r),
                         curr_size :=
                           (if set_evictable then size_t_inc (curr_size r)
                            else size_t_dec (curr_size r))\<rparr>))"

definition Remove :: "LRUKReplacer \<Rightarrow> frame_id_t \<Rightarrow> fault + LRUKReplacer" where
  "Remove r frame_id =
     (case map_of (frame_table r) frame_id of
        None \<Rightarrow> Inr r
      | Some frame_info \<Rightarrow>
          if \<not> is_evictable frame_info
          then Inl (Exception ''Cannot remove non-evictable frame'')
          else Inr (r\<lparr>frame_table := AList.delete frame_id (frame_table r),
                       curr_size := size_t_dec (curr_size r)\<rparr>))"

definition Size :: "LRUKReplacer \<Rightarrow> nat" where
  "Size r = curr_size r"

section \<open>LRU-K replacer (the version with \<^verbatim>\<open>entries\<close>)\<close>

record Entry =
  entry_history :: "nat list"
  evictable :: bool

record LRUKReplacer_E =
  entries :: "(frame_id_t \<times> Entry) list"
  e_current_timestamp :: nat
  e_curr_size :: nat
  e_replacer_size :: nat
  e_k :: nat

definition INVALID_FRAME_ID :: frame_id_t where
  "INVALID_FRAME_ID = -1"

definition LRUKReplacer_E_init :: "nat \<Rightarrow> nat \<Rightarrow> LRUKReplacer_E" where
  "LRUKReplacer_E_init num_frames k =
     \<lparr>entries = [], e_current_timestamp = 0, e_curr_size = 0,
      e_replacer_size = num_frames, e_k = k\<rparr>"

text \<open>
  The distance computed inside the loop: \<^verbatim>\<open>int64_t\<close>, \<open>INT64_MAX\<close> for fewer than \<open>k\<close>
  accesses, otherwise the difference to the element \<open>size - k\<close> steps from the front.
\<close>

definition E_distance :: "LRUKReplacer_E \<Rightarrow> Entry \<Rightarrow> int" where
  "E_distance r entry =
     (if length (entry_history entry) < e_k r then INT64_MAX
      else int64_of_size_t
             (size_t_sub (e_current_timestamp r)
                (entry_history entry ! (length (entry_history entry) - e_k r))))"

text \<open>The accumulator is \<open>(victim, max_distance, earliest_timestamp)\<close>.\<close>

fun E_Evict_loop ::
  "LRUKReplacer_E \<Rightarrow> (frame_id_t \<times> Entry) list \<Rightarrow> frame_id_t \<times> int \<times> nat
     \<Rightarrow> frame_id_t \<times> int \<times> nat" where
  "E_Evict_loop r [] acc = acc"
| "E_Evict_loop r ((fid, entry) # rest) (victim, max_distance, earliest) =
     (if \<not> evictable entry then E_Evict_loop r rest (victim, max_distance, earliest)
      else
        let distance = E_distance r entry in
          if distance > max_distance
          then E_Evict_loop r rest (fid, distance, hd (entry_history entry))
          else if distance = max_distance \<and> hd (entry_history entry) < earliest
          then E_Evict_loop r rest (fid, max_distance, hd (entry_history entry))
          else E_Evict_loop r rest (victim, max_distance, earliest))"

definition E_Evict :: "LRUKReplacer_E \<Rightarrow> frame_id_t option \<times> LRUKReplacer_E" where
  "E_Evict r =
     (if e_curr_size r = 0 then (None, r)
      else
        let victim = fst (E_Evict_loop r (entries r) (INVALID_FRAME_ID, -1, SIZE_MAX)) in
          if victim = INVALID_FRAME_ID then (None, r)
          else (Some victim,
                r\<lparr>entries := AList.delete victim (entries r),
                  e_curr_size := size_t_dec (e_curr_size r)\<rparr>))"

text \<open>
  \<^verbatim>\<open>BUSTUB_ASSERT(frame_id < static_cast<frame_id_t>(replacer_size), ...)\<close>: a signed
  comparison, so a negative frame id passes.
\<close>

definition E_frame_id_ok :: "LRUKReplacer_E \<Rightarrow> frame_id_t \<Rightarrow> bool" where
  "E_frame_id_ok r frame_id \<longleftrightarrow> frame_id < int32_of_size_t (e_replacer_size r)"

definition E_RecordAccess :: "LRUKReplacer_E \<Rightarrow> frame_id_t \<Rightarrow> fault + LRUKReplacer_E" where
  "E_RecordAccess r frame_id =
     (if \<not> E_frame_id_ok r frame_id then Inl (AssertionFailed ''Invalid frame id'')
      else
        let ts = size_t_inc (e_current_timestamp r) in
          case map_of (entries r) frame_id of
            None \<Rightarrow>
              Inr (r\<lparr>e_current_timestamp := ts,
                     entries :=
                       AList.update frame_id \<lparr>entry_history = [ts], evictable = False\<rparr>
                         (entries r)\<rparr>)
          | Some entry \<Rightarrow>
              let h1 = entry_history entry @ [ts];
                  h2 = (if length h1 > e_k r then tl h1 else h1)
              in Inr (r\<lparr>e_current_timestamp := ts,
                        entries :=
                          AList.update frame_id (entry\<lparr>entry_history := h2\<rparr>) (entries r)\<rparr>))"

definition E_SetEvictable ::
  "LRUKReplacer_E \<Rightarrow> frame_id_t \<Rightarrow> bool \<Rightarrow> fault + LRUKReplacer_E" where
  "E_SetEvictable r frame_id set_evictable =
     (if \<not> E_frame_id_ok r frame_id then Inl (AssertionFailed ''Invalid frame id'')
      else
        case map_of (entries r) frame_id of
          None \<Rightarrow> Inr r
        | Some entry \<Rightarrow>
            if evictable entry = set_evictable then Inr r
            else Inr (r\<lparr>entries :=
                           AList.update frame_id (entry\<lparr>evictable := set_evictable\<rparr>)
                             (entries r),
                         e_curr_size :=
                           (if set_evictable then size_t_inc (e_curr_size r)
                            else size_t_dec (e_curr_size r))\<rparr>))"

definition E_Remove :: "LRUKReplacer_E \<Rightarrow> frame_id_t \<Rightarrow> fault + LRUKReplacer_E" where
  "E_Remove r frame_id =
     (if \<not> E_frame_id_ok r frame_id then Inl (AssertionFailed ''Invalid frame id'')
      else
        case map_of (entries r) frame_id of
          None \<Rightarrow> Inr r
        | Some entry \<Rightarrow>
            if \<not> evictable entry
            then Inl (AssertionFailed ''Cannot remove non-evictable frame'')
            else Inr (r\<lparr>entries := AList.delete frame_id (entries r),
                         e_curr_size := size_t_dec (e_curr_size r)\<rparr>))"

definition E_Size :: "LRUKReplacer_E \<Rightarrow> nat" where
  "E_Size r = e_curr_size r"

section \<open>Replacer: the specification's notions and the state invariants\<close>

text \<open>
  The backward K-distance in the specification's words: \<open>now - t\<^sub>K\<close> where \<open>t\<^sub>K\<close> is the
  K-th most recent access of the history (the most recent access is last), or \<open>\<infinity>\<close>
  when fewer than \<open>K\<close> accesses are recorded.
\<close>

definition backward_k_distance :: "nat \<Rightarrow> nat \<Rightarrow> nat list \<Rightarrow> enat" where
  "backward_k_distance now K h =
     (if length h < K then \<infinity> else enat (now - h ! (length h - K)))"

definition bkd :: "LRUKReplacer \<Rightarrow> FrameInfo \<Rightarrow> enat" where
  "bkd r fi = backward_k_distance (current_timestamp r) (lru_k r) (history fi)"

definition E_bkd :: "LRUKReplacer_E \<Rightarrow> Entry \<Rightarrow> enat" where
  "E_bkd r e = backward_k_distance (e_current_timestamp r) (e_k r) (entry_history e)"

text \<open>
  The states the replacer is in between two operations: the frame table is a map (no
  frame id twice), only frame ids \<open>0 \<le> f\<close> are tracked, \<open>curr_size\<close> counts the evictable
  frames, every history is non-empty, holds at most \<open>K\<close> timestamps, none of them in the
  future, \<open>earliest_timestamp\<close> is the first access while fewer than \<open>K\<close> are recorded,
  and the clock has not reached the value the code uses for \<open>+\<infinity>\<close>.
\<close>

definition frame_info_wf :: "LRUKReplacer \<Rightarrow> FrameInfo \<Rightarrow> bool" where
  "frame_info_wf r fi \<longleftrightarrow>
     history fi \<noteq> [] \<and> length (history fi) \<le> lru_k r \<and>
     (\<forall>t \<in> set (history fi). t \<le> current_timestamp r) \<and>
     (length (history fi) < lru_k r \<longrightarrow> earliest_timestamp fi = hd (history fi))"

definition replacer_wf :: "LRUKReplacer \<Rightarrow> bool" where
  "replacer_wf r \<longleftrightarrow>
     distinct (map fst (frame_table r)) \<and>
     curr_size r = length (filter (\<lambda>p. is_evictable (snd p)) (frame_table r)) \<and>
     0 < lru_k r \<and> current_timestamp r < SIZE_MAX \<and>
     (\<forall>p \<in> set (frame_table r). 0 \<le> fst p \<and> frame_info_wf r (snd p))"

definition entry_wf :: "LRUKReplacer_E \<Rightarrow> Entry \<Rightarrow> bool" where
  "entry_wf r e \<longleftrightarrow>
     entry_history e \<noteq> [] \<and> length (entry_history e) \<le> e_k r \<and>
     (\<forall>t \<in> set (entry_history e). t \<le> e_current_timestamp r)"

definition replacer_E_wf :: "LRUKReplacer_E \<Rightarrow> bool" where
  "replacer_E_wf r \<longleftrightarrow>
     distinct (map fst (entries r)) \<and>
     e_curr_size r = length (filter (\<lambda>p. evictable (snd p)) (entries r)) \<and>
     0 < e_k r \<and> int (e_current_timestamp r) < INT64_MAX \<and>
     (\<forall>p \<in> set (entries r). 0 \<le> fst p \<and> entry_wf r (snd p))"

text \<open>
  The order the loops of \<open>Evict\<close> implement (\<open>no_better r g f\<close>: frame \<open>g\<close> is not a
  better victim than \<open>f\<close>), and the loop invariants over the frames seen so far.
\<close>

definition no_better :: "LRUKReplacer \<Rightarrow> FrameInfo \<Rightarrow> FrameInfo \<Rightarrow> bool" where
  "no_better r gi fi \<longleftrightarrow>
     CalculateBackwardKDistance r gi < CalculateBackwardKDistance r fi \<or>
     (CalculateBackwardKDistance r gi = CalculateBackwardKDistance r fi \<and>
      (CalculateBackwardKDistance r fi = SIZE_MAX \<longrightarrow> earliest_timestamp fi \<le> earliest_timestamp gi))"

definition acc_ok :: "LRUKReplacer \<Rightarrow> (frame_id_t \<times> FrameInfo) list \<Rightarrow> frame_id_t \<times> nat \<times> nat \<Rightarrow> bool" where
  "acc_ok r seen acc \<longleftrightarrow>
     (fst acc = -1 \<and> (\<forall>p \<in> set seen. \<not> is_evictable (snd p))) \<or>
     (fst acc \<noteq> -1 \<and> (\<exists>ci. (fst acc, ci) \<in> set seen \<and> is_evictable ci \<and>
         fst (snd acc) = CalculateBackwardKDistance r ci \<and>
         snd (snd acc) = earliest_timestamp ci \<and>
         (\<forall>p \<in> set seen. is_evictable (snd p) \<longrightarrow> no_better r (snd p) ci)))"

definition E_no_better :: "LRUKReplacer_E \<Rightarrow> Entry \<Rightarrow> Entry \<Rightarrow> bool" where
  "E_no_better r g f \<longleftrightarrow>
     E_distance r g < E_distance r f \<or>
     (E_distance r g = E_distance r f \<and> hd (entry_history f) \<le> hd (entry_history g))"

definition E_acc_ok :: "LRUKReplacer_E \<Rightarrow> (frame_id_t \<times> Entry) list \<Rightarrow> frame_id_t \<times> int \<times> nat \<Rightarrow> bool" where
  "E_acc_ok r seen acc \<longleftrightarrow>
     (fst acc = -1 \<and> fst (snd acc) = -1 \<and> (\<forall>p \<in> set seen. \<not> evictable (snd p))) \<or>
     (fst acc \<noteq> -1 \<and> (\<exists>vi. (fst acc, vi) \<in> set seen \<and> evictable vi \<and>
         fst (snd acc) = E_distance r vi \<and>
         snd (snd acc) = hd (entry_history vi) \<and>
         (\<forall>p \<in> set seen. evictable (snd p) \<longrightarrow> E_no_better r (snd p) vi)))"

text \<open>Concrete replacer states used to exercise the theorems.\<close>

definition replacer_example :: LRUKReplacer where
  "replacer_example =
     \<lparr>frame_table =
        [(1, \<lparr>history = [1, 4], is_evictable = True, earliest_timestamp = 1\<rparr>),
         (3, \<lparr>history = [3], is_evictable = True, earliest_timestamp = 3\<rparr>),
         (2, \<lparr>history = [2], is_evictable = True, earliest_timestamp = 2\<rparr>),
         (4, \<lparr>history = [5], is_evictable = False, earliest_timestamp = 5\<rparr>)],
      current_timestamp = 5, curr_size = 3, replacer_size = 7, lru_k = 2\<rparr>"

definition replacer_E_example :: LRUKReplacer_E where
  "replacer_E_example =
     \<lparr>entries =
        [(1, \<lparr>entry_history = [1, 4], evictable = True\<rparr>),
         (3, \<lparr>entry_history = [3], evictable = True\<rparr>),
         (2, \<lparr>entry_history = [2], evictable = True\<rparr>),
         (4, \<lparr>entry_history = [5], evictable = False\<rparr>)],
      e_current_timestamp = 5, e_curr_size = 3, e_replacer_size = 7, e_k = 2\<rparr>"

section \<open>Buffer pool manager\<close>

text \<open>
  Modelled from the spec: the \<^verbatim>\<open>DiskManager\<close> (its source is not part of the repository's
  files). \<^verbatim>\<open>WritePage(pid, buf)\<close> persists the bytes and \<^verbatim>\<open>ReadPage(pid, buf)\<close> returns what
  is stored; both are synchronous and succeed. The manager records every call in
  \<open>disk_log\<close>, oldest first, which is what a recording disk manager observes.
\<close>

datatype disk_op = WritePage page_id_t "nat list" | ReadPage page_id_t

record DiskManager =
  disk_pages :: "page_id_t \<Rightarrow> nat list"
  disk_log :: "disk_op list"

definition DiskManager_WritePage :: "DiskManager \<Rightarrow> page_id_t \<Rightarrow> nat list \<Rightarrow> DiskManager" where
  "DiskManager_WritePage d pid buf =
     d\<lparr>disk_pages := (disk_pages d)(pid := buf), disk_log := disk_log d @ [WritePage pid buf]\<rparr>"

definition DiskManager_ReadPage :: "DiskManager \<Rightarrow> page_id_t \<Rightarrow> nat list \<times> DiskManager" where
  "DiskManager_ReadPage d pid = (disk_pages d pid, d\<lparr>disk_log := disk_log d @ [ReadPage pid]\<rparr>)"

text \<open>
  A frame of the pool: the class \<^verbatim>\<open>Page\<close> with its metadata and its bytes.
  \<^verbatim>\<open>ResetMemory\<close> zeroes the bytes.
\<close>

record Page =
  frame_page_id :: page_id_t
  pin_count :: int
  is_dirty :: bool
  data :: "nat list"

definition BUSTUB_PAGE_SIZE :: nat where
  "BUSTUB_PAGE_SIZE = 4096"

definition ResetMemory :: "Page \<Rightarrow> Page" where
  "ResetMemory p = p\<lparr>data := replicate BUSTUB_PAGE_SIZE 0\<rparr>"

text \<open>
  The pool. \<^verbatim>\<open>page_table_\<close> is an \<^verbatim>\<open>ExtendibleHashTable<page_id_t, frame_id_t>\<close> that the pool
  uses through \<open>Find\<close>, \<open>Insert\<close> and \<open>Remove\<close> only; it is modelled by the finite map it
  implements. \<open>pages\<close> is the array \<^verbatim>\<open>pages_\<close>, indexed by frame id. The record is
  polymorphic in the replacer, one instance for each version of the replacer.
\<close>

record 'r BufferPoolManagerInstance =
  pages :: "Page list"
  page_table :: "page_id_t \<rightharpoonup> frame_id_t"
  replacer :: 'r
  free_list :: "frame_id_t list"
  pool_next_page_id :: page_id_t
  disk_manager :: DiskManager

definition BufferPoolManagerInstance_init ::
  "nat \<Rightarrow> DiskManager \<Rightarrow> nat \<Rightarrow> LRUKReplacer BufferPoolManagerInstance" where
  "BufferPoolManagerInstance_init pool_size dm replacer_k =
     \<lparr>pages = replicate pool_size
                \<lparr>frame_page_id = INVALID_PAGE_ID, pin_count = 0, is_dirty = False,
                 data = replicate BUSTUB_PAGE_SIZE 0\<rparr>,
      page_table = Map.empty,
      replacer = LRUKReplacer_init pool_size replacer_k,
      free_list = map int [0..<pool_size],
      pool_next_page_id = 0,
      disk_manager = dm\<rparr>"

text \<open>
  The frame a new or fetched page goes to, shared by \<open>NewPgImp\<close> and \<open>FetchPgImp\<close> (the
  sources repeat these lines in both): the head of the free list, or else the replacer's
  victim, whose page is written back when dirty and dropped from the page table. \<open>None\<close>
  when neither source has a frame.
\<close>

definition obtain_frame ::
  "LRUKReplacer BufferPoolManagerInstance
     \<Rightarrow> (frame_id_t \<times> LRUKReplacer BufferPoolManagerInstance) option" where
  "obtain_frame s =
     (if free_list s \<noteq> [] then Some (hd (free_list s), s\<lparr>free_list := tl (free_list s)\<rparr>)
      else
        case Evict (replacer s) of
          (Some frame_id, r') \<Rightarrow>
            let old_page = pages s ! nat frame_id;
                s1 = s\<lparr>replacer := r'\<rparr>;
                s2 = (if is_dirty old_page
                      then s1\<lparr>disk_manager :=
                                 DiskManager_WritePage (disk_manager s1)
                                   (frame_page_id old_page) (data old_page),
                               pages := (pages s1)[nat frame_id := old_page\<lparr>is_dirty := False\<rparr>]\<rparr>
                      else s1)
            in Some (frame_id, s2\<lparr>page_table := (page_table s2)(frame_page_id old_page := None)\<rparr>)
        | (None, r') \<Rightarrow> None)"

text \<open>
  \<open>NewPgImp\<close> returns the frame of the new page (\<open>None\<close> for \<^verbatim>\<open>nullptr\<close>), the value stored
  to \<^verbatim>\<open>*page_id\<close>, and the new state; a fault of the replacer aborts the call.
\<close>

definition NewPgImp ::
  "LRUKReplacer BufferPoolManagerInstance
     \<Rightarrow> fault + (frame_id_t option \<times> page_id_t) \<times> LRUKReplacer BufferPoolManagerInstance" where
  "NewPgImp s =
     (case obtain_frame s of
        None \<Rightarrow> Inr ((None, INVALID_PAGE_ID), s)
      | Some (frame_id, s1) \<Rightarrow>
          let new_id = pool_next_page_id s1;
              s2 = s1\<lparr>pool_next_page_id := new_id + 1\<rparr>;
              new_page = (ResetMemory (pages s2 ! nat frame_id))
                           \<lparr>frame_page_id := new_id, pin_count := 1, is_dirty := False\<rparr>;
              s3 = s2\<lparr>pages := (pages s2)[nat frame_id := new_page],
                      page_table := (page_table s2)(new_id \<mapsto> frame_id)\<rparr>
          in case RecordAccess (replacer s3) frame_id of
               Inl e \<Rightarrow> Inl e
             | Inr r1 \<Rightarrow>
                 (case SetEvictable r1 frame_id False of
                    Inl e \<Rightarrow> Inl e
                  | Inr r2 \<Rightarrow> Inr ((Some frame_id, new_id), s3\<lparr>replacer := r2\<rparr>)))"

definition FetchPgImp ::
  "LRUKReplacer BufferPoolManagerInstance \<Rightarrow> page_id_t
     \<Rightarrow> fault + frame_id_t option \<times> LRUKReplacer BufferPoolManagerInstance" where
  "FetchPgImp s pid =
     (case page_table s pid of
        Some frame_id \<Rightarrow>
          let page = pages s ! nat frame_id;
              s1 = s\<lparr>pages := (pages s)[nat frame_id := page\<lparr>pin_count := pin_count page + 1\<rparr>]\<rparr>
          in (case RecordAccess (replacer s1) frame_id of
                Inl e \<Rightarrow> Inl e
              | Inr r1 \<Rightarrow>
                  (case SetEvictable r1 frame_id False of
                     Inl e \<Rightarrow> Inl e
                   | Inr r2 \<Rightarrow> Inr (Some frame_id, s1\<lparr>replacer := r2\<rparr>)))
      | None \<Rightarrow>
          (case obtain_frame s of
             None \<Rightarrow> Inr (None, s)
           | Some (new_frame_id, s1) \<Rightarrow>
               let new_page = (ResetMemory (pages s1 ! nat new_frame_id))
                                \<lparr>frame_page_id := pid, pin_count := 1, is_dirty := False\<rparr>;
                   (buf, dm) = DiskManager_ReadPage (disk_manager s1) pid;
                   s2 = s1\<lparr>pages := (pages s1)[nat new_frame_id := new_page\<lparr>data := buf\<rparr>],
                           disk_manager := dm,
                           page_table := (page_table s1)(pid \<mapsto> new_frame_id)\<rparr>
               in case RecordAccess (replacer s2) new_frame_id of
                    Inl e \<Rightarrow> Inl e
                  | Inr r1 \<Rightarrow>
                      (case SetEvictable r1 new_frame_id False of
                         Inl e \<Rightarrow> Inl e
                       | Inr r2 \<Rightarrow> Inr (Some new_frame_id, s2\<lparr>replacer := r2\<rparr>))))"

text \<open>\<open>UnpinPgImp\<close>, once for each version of the pool (the two bodies are the same).\<close>

definition UnpinPgImp ::
  "LRUKReplacer BufferPoolManagerInstance \<Rightarrow> page_id_t \<Rightarrow> bool
     \<Rightarrow> fault + bool \<times> LRUKReplacer BufferPoolManagerInstance" where
  "UnpinPgImp s pid dirty =
     (case page_table s pid of
        None \<Rightarrow> Inr (False, s)
      | Some frame_id \<Rightarrow>
          let page = pages s ! nat frame_id in
            if pin_count page \<le> 0 then Inr (False, s)
            else
              let page1 = page\<lparr>pin_count := pin_count page - 1\<rparr>;
                  page2 = (if dirty then page1\<lparr>is_dirty := True\<rparr> else page1);
                  s1 = s\<lparr>pages := (pages s)[nat frame_id := page2]\<rparr>
              in if pin_count page2 = 0
                 then (case SetEvictable (replacer s1) frame_id True of
                         Inl e \<Rightarrow> Inl e
                       | Inr r' \<Rightarrow> Inr (True, s1\<lparr>replacer := r'\<rparr>))
                 else Inr (True, s1))"

definition E_UnpinPgImp ::
  "LRUKReplacer_E BufferPoolManagerInstance \<Rightarrow> page_id_t \<Rightarrow> bool
     \<Rightarrow> fault + bool \<times> LRUKReplacer_E BufferPoolManagerInstance" where
  "E_UnpinPgImp s pid dirty =
     (case page_table s pid of
        None \<Rightarrow> Inr (False, s)
      | Some frame_id \<Rightarrow>
          let page = pages s ! nat frame_id in
            if pin_count page \<le> 0 then Inr (False, s)
            else
              let page1 = page\<lparr>pin_count := pin_count page - 1\<rparr>;
                  page2 = (if dirty then page1\<lparr>is_dirty := True\<rparr> else page1);
                  s1 = s\<lparr>pages := (pages s)[nat frame_id := page2]\<rparr>
              in if pin_count page2 = 0
                 then (case E_SetEvictable (replacer s1) frame_id True of
                         Inl e \<Rightarrow> Inl e
                       | Inr r' \<Rightarrow> Inr (True, s1\<lparr>replacer := r'\<rparr>))
                 else Inr (True, s1))"

text \<open>Concrete pool states used to exercise the theorems: frame 0 holds the dirty, unpinned
  page 0; frame 1 holds the pinned page 1; the free list is empty.\<close>

definition pool_example :: "LRUKReplacer BufferPoolManagerInstance" where
  "pool_example =
     \<lparr>pages = [\<lparr>frame_page_id = 0, pin_count = 0, is_dirty = True, data = [7]\<rparr>,
               \<lparr>frame_page_id = 1, pin_count = 1, is_dirty = False, data = [8]\<rparr>],
      page_table = [0 \<mapsto> 0, 1 \<mapsto> 1],
      replacer =
        \<lparr>frame_table =
           [(0, \<lparr>history = [1], is_evictable = True, earliest_timestamp = 1\<rparr>),
            (1, \<lparr>history = [2], is_evictable = False, earliest_timestamp = 2\<rparr>)],
         current_timestamp = 2, curr_size = 1, replacer_size = 2, lru_k = 2\<rparr>,
      free_list = [],
      pool_next_page_id = 2,
      disk_manager = \<lparr>disk_pages = (\<lambda>_. []), disk_log = []\<rparr>\<rparr>"

definition E_pool_example :: "LRUKReplacer_E BufferPoolManagerInstance" where
  "E_pool_example =
     \<lparr>pages = [\<lparr>frame_page_id = 0, pin_count = 0, is_dirty = True, data = [7]\<rparr>,
               \<lparr>frame_page_id = 1, pin_count = 1, is_dirty = False, data = [8]\<rparr>],
      page_table = [0 \<mapsto> 0, 1 \<mapsto> 1],
      replacer =
        \<lparr>entries =
           [(0, \<lparr>entry_history = [1], evictable = True\<rparr>),
            (1, \<lparr>entry_history = [2], evictable = False\<rparr>)],
         e_current_timestamp = 2, e_curr_size = 1, e_replacer_size = 2, e_k = 2\<rparr>,
      free_list = [],
      pool_next_page_id = 2,
      disk_manager = \<lparr>disk_pages = (\<lambda>_. []), disk_log = []\<rparr>\<rparr>"

section \<open>B+ tree pages\<close>

text \<open>
  The key type \<^verbatim>\<open>GenericKey<N>\<close>, its comparator and the record id \<^verbatim>\<open>RID\<close> are declared
  outside the repository's files. A key is modelled by the integer it is set from
  (\<^verbatim>\<open>SetFromInteger\<close>), the comparator by the three-way comparison of integers, and a record
  id by its page id and slot number. The value-initialised key \<^verbatim>\<open>KeyType{}\<close> is the all-zero
  key; the value-initialised value \<^verbatim>\<open>ValueType{}\<close> of a leaf is the default record id.
\<close>

type_synonym KeyType = int

definition KeyType_default :: KeyType where
  "KeyType_default = 0"

definition comparator :: "KeyType \<Rightarrow> KeyType \<Rightarrow> int" where
  "comparator a b = (if a < b then -1 else if b < a then 1 else 0)"

datatype RID = RID page_id_t nat

definition RID_default :: RID where
  "RID_default = RID INVALID_PAGE_ID 0"

text \<open>
  A tree page: the header fields the code uses and the entries. The list \<open>array\<close> is the
  live part \<^verbatim>\<open>array_[0 .. size)\<close> of the page's flexible array, so \<^verbatim>\<open>GetSize()\<close> is its
  length; \<^verbatim>\<open>IncreaseSize\<close> and \<^verbatim>\<open>SetSize\<close> appear as the list growing or shrinking. The
  type parameter is the value type: \<open>RID\<close> for a leaf, \<open>page_id_t\<close> for an internal page.
  \<open>next_page_id\<close> is a field of leaf pages only; an internal page carries it unused.
\<close>

record 'v BPlusTreePage =
  max_size :: int
  parent_page_id :: page_id_t
  page_id :: page_id_t
  next_page_id :: page_id_t
  array :: "(KeyType \<times> 'v) list"

definition GetSize :: "'v BPlusTreePage \<Rightarrow> int" where
  "GetSize p = int (length (array p))"

text \<open>
  Modelled from the spec: \<^verbatim>\<open>GetMinSize\<close> of \<^verbatim>\<open>b_plus_tree_page.cpp\<close>, which is not among the
  sources. The specification's data model gives \<open>min_size = \<lceil>max_size / 2\<rceil>\<close> for leaf and
  internal pages alike.
\<close>

definition GetMinSize :: "'v BPlusTreePage \<Rightarrow> int" where
  "GetMinSize p = (max_size p + 1) div 2"

definition IsRootPage :: "'v BPlusTreePage \<Rightarrow> bool" where
  "IsRootPage p \<longleftrightarrow> parent_page_id p = INVALID_PAGE_ID"

definition Init :: "page_id_t \<Rightarrow> page_id_t \<Rightarrow> int \<Rightarrow> 'v BPlusTreePage" where
  "Init pid parent_id max_sz =
     \<lparr>max_size = max_sz, parent_page_id = parent_id, page_id = pid,
      next_page_id = INVALID_PAGE_ID, array = []\<rparr>"

subsection \<open>Leaf pages\<close>

definition Leaf_KeyAt :: "RID BPlusTreePage \<Rightarrow> int \<Rightarrow> KeyType" where
  "Leaf_KeyAt p index =
     (if 0 \<le> index \<and> index < GetSize p then fst (array p ! nat index) else KeyType_default)"

definition Leaf_ValueAt :: "RID BPlusTreePage \<Rightarrow> int \<Rightarrow> RID" where
  "Leaf_ValueAt p index =
     (if 0 \<le> index \<and> index < GetSize p then snd (array p ! nat index) else RID_default)"

text \<open>
  The binary search of \<open>KeyIndex\<close>: the loop \<^verbatim>\<open>while (left <= right)\<close> with its three
  variables. Inside the loop \<open>0 \<le> left \<le> mid \<le> right < size\<close>.
\<close>

function Leaf_KeyIndex_loop :: "(KeyType \<times> RID) list \<Rightarrow> KeyType \<Rightarrow> int \<Rightarrow> int \<Rightarrow> int \<Rightarrow> int" where
  "Leaf_KeyIndex_loop arr key left right ans =
     (if left \<le> right
      then let mid = (left + right) div 2 in
             if comparator (fst (arr ! nat mid)) key \<ge> 0
             then Leaf_KeyIndex_loop arr key left (mid - 1) mid
             else Leaf_KeyIndex_loop arr key (mid + 1) right ans
      else ans)"
  by pat_completeness auto
termination
  by (relation "measure (\<lambda>(arr, key, left, right, ans). nat (right - left + 1))") auto

definition Leaf_KeyIndex :: "RID BPlusTreePage \<Rightarrow> KeyType \<Rightarrow> int" where
  "Leaf_KeyIndex p key = Leaf_KeyIndex_loop (array p) key 0 (GetSize p - 1) (GetSize p)"

text \<open>\<open>Lookup\<close> returns the value found (\<^verbatim>\<open>*value\<close>), or \<open>None\<close> for \<^verbatim>\<open>false\<close>.\<close>

definition Leaf_Lookup :: "RID BPlusTreePage \<Rightarrow> KeyType \<Rightarrow> RID option" where
  "Leaf_Lookup p key =
     (let idx = Leaf_KeyIndex p key in
        if idx < GetSize p \<and> comparator (fst (array p ! nat idx)) key = 0
        then Some (snd (array p ! nat idx)) else None)"

text \<open>
  \<open>Insert\<close> returns the new size, or \<open>-1\<close> when the key is present, and the page. The loop
  that moves the entries from \<open>idx\<close> one slot to the right and the store to slot \<open>idx\<close>
  are the list with the new entry put in front of position \<open>idx\<close>.
\<close>

definition Leaf_Insert :: "RID BPlusTreePage \<Rightarrow> KeyType \<Rightarrow> RID \<Rightarrow> int \<times> RID BPlusTreePage" where
  "Leaf_Insert p key val =
     (let size = GetSize p; idx = Leaf_KeyIndex p key in
        if idx < size \<and> comparator (fst (array p ! nat idx)) key = 0 then (-1, p)
        else
          let p' = p\<lparr>array := take (nat idx) (array p) @ (key, val) # drop (nat idx) (array p)\<rparr>
          in (GetSize p', p'))"

definition Leaf_RemoveAt :: "RID BPlusTreePage \<Rightarrow> int \<Rightarrow> RID BPlusTreePage" where
  "Leaf_RemoveAt p index =
     (if index < 0 \<or> index \<ge> GetSize p then p
      else p\<lparr>array := take (nat index) (array p) @ drop (nat index + 1) (array p)\<rparr>)"

subsection \<open>Internal pages\<close>

definition Internal_KeyAt :: "page_id_t BPlusTreePage \<Rightarrow> int \<Rightarrow> KeyType" where
  "Internal_KeyAt p index =
     (if 0 \<le> index \<and> index < GetSize p then fst (array p ! nat index) else KeyType_default)"

definition Internal_ValueAt :: "page_id_t BPlusTreePage \<Rightarrow> int \<Rightarrow> page_id_t" where
  "Internal_ValueAt p index =
     (if 0 \<le> index \<and> index < GetSize p then snd (array p ! nat index) else INVALID_PAGE_ID)"

text \<open>
  \<open>SetKeyAt\<close> writes \<^verbatim>\<open>array_[index].first\<close> without a bounds check. A write outside the live
  entries is outside this model: the result is \<open>None\<close>.
\<close>

definition Internal_SetKeyAt ::
  "page_id_t BPlusTreePage \<Rightarrow> int \<Rightarrow> KeyType \<Rightarrow> page_id_t BPlusTreePage option" where
  "Internal_SetKeyAt p index key =
     (if 0 \<le> index \<and> index < GetSize p
      then Some (p\<lparr>array := (array p)[nat index := (key, snd (array p ! nat index))]\<rparr>)
      else None)"

function Internal_Lookup_loop ::
  "page_id_t BPlusTreePage \<Rightarrow> KeyType \<Rightarrow> int \<Rightarrow> int \<Rightarrow> int \<Rightarrow> int" where
  "Internal_Lookup_loop p key left right upper =
     (if left \<le> right
      then let mid = (left + right) div 2 in
             if comparator (Internal_KeyAt p mid) key > 0
             then Internal_Lookup_loop p key left (mid - 1) mid
             else Internal_Lookup_loop p key (mid + 1) right upper
      else upper)"
  by pat_completeness auto
termination
  by (relation "measure (\<lambda>(p, key, left, right, upper). nat (right - left + 1))") auto

text \<open>\<open>Lookup\<close>; \<open>None\<close> is the failed \<^verbatim>\<open>BUSTUB_ASSERT(size >= 1, ...)\<close>.\<close>

definition Internal_Lookup :: "page_id_t BPlusTreePage \<Rightarrow> KeyType \<Rightarrow> page_id_t option" where
  "Internal_Lookup p key =
     (let size = GetSize p in
        if \<not> size \<ge> 1 then None
        else if size = 1 then Some (Internal_ValueAt p 0)
        else if comparator key (Internal_KeyAt p 1) < 0 then Some (Internal_ValueAt p 0)
        else
          let upper = Internal_Lookup_loop p key 1 (size - 1) size;
              child_index = upper - 1
          in Some (Internal_ValueAt p child_index))"

definition Internal_RemoveAt :: "page_id_t BPlusTreePage \<Rightarrow> int \<Rightarrow> page_id_t BPlusTreePage" where
  "Internal_RemoveAt p index =
     (if index < 0 \<or> index \<ge> GetSize p then p
      else p\<lparr>array := take (nat index) (array p) @ drop (nat index + 1) (array p)\<rparr>)"

text \<open>
  \<open>BuildRoot\<close> stores the first child, the second entry and the size 2; it never writes
  the key of slot 0, which keeps what the slot held: the all-zero key on the freshly
  reset page \<open>BuildRoot\<close> is called on.
\<close>

definition BuildRoot ::
  "page_id_t BPlusTreePage \<Rightarrow> KeyType \<Rightarrow> page_id_t \<Rightarrow> KeyType \<Rightarrow> page_id_t
     \<Rightarrow> page_id_t BPlusTreePage" where
  "BuildRoot p key1 val1 key2 val2 =
     p\<lparr>array :=
         [((case array p of [] \<Rightarrow> KeyType_default | e # _ \<Rightarrow> fst e), val1), (key2, val2)]\<rparr>"

fun ValueIndex_from :: "(KeyType \<times> page_id_t) list \<Rightarrow> page_id_t \<Rightarrow> int \<Rightarrow> int" where
  "ValueIndex_from [] v i = -1"
| "ValueIndex_from (e # es) v i = (if snd e = v then i else ValueIndex_from es v (i + 1))"

definition ValueIndex :: "page_id_t BPlusTreePage \<Rightarrow> page_id_t \<Rightarrow> int" where
  "ValueIndex p v = ValueIndex_from (array p) v 0"

text \<open>
  \<open>Insert\<close> of an internal page: the linear scan from slot 1, then the shift and the
  store, with no check of the slot against the size. On a page with no live entry the scan
  stops at slot 1: the entry goes to slot 1, the size becomes 1 and 1 is returned, so that
  the one live slot is slot 0, which the call did not write, and the new entry is not
  live. The record of a page keeps the live entries only and has no trace of the bytes
  behind them; slot 0 of an empty page is taken to be as \<open>Init\<close> finds it on a page fresh
  from the pool, whose \<open>NewPgImp\<close> zeroes the frame (\<open>ResetMemory\<close>): the all-zero key and
  page id 0.
\<close>

definition unwritten_slot :: "KeyType \<times> page_id_t" where
  "unwritten_slot = (KeyType_default, 0)"

function Internal_Insert_scan :: "(KeyType \<times> page_id_t) list \<Rightarrow> KeyType \<Rightarrow> int \<Rightarrow> int" where
  "Internal_Insert_scan arr key idx =
     (if idx < int (length arr) \<and> comparator (fst (arr ! nat idx)) key < 0
      then Internal_Insert_scan arr key (idx + 1) else idx)"
  by pat_completeness auto
termination
  by (relation "measure (\<lambda>(arr, key, idx). nat (int (length arr) - idx))") auto

definition Internal_Insert ::
  "page_id_t BPlusTreePage \<Rightarrow> KeyType \<Rightarrow> page_id_t \<Rightarrow> (int \<times> page_id_t BPlusTreePage) option" where
  "Internal_Insert p key val =
     (let size = GetSize p; idx = Internal_Insert_scan (array p) key 1 in
        if idx > size then Some (size + 1, p\<lparr>array := [unwritten_slot]\<rparr>)
        else
          let p' = p\<lparr>array := take (nat idx) (array p) @ (key, val) # drop (nat idx) (array p)\<rparr>
          in Some (GetSize p', p'))"

subsection \<open>The accessors with their array reads\<close>

text \<open>
  The four read accessors once more, this time with the read of \<^verbatim>\<open>array_[index]\<close> as a step
  that can go wrong. A read of a slot outside the live entries \<open>[0, size)\<close> is what an
  accessor must not do: for \<open>index < 0\<close> or beyond the page it is out of bounds of the array,
  and in between it returns bytes that are no entry. \<open>array_read\<close> makes every such read a
  fault, and an accessor returns the fault of a read it makes.
\<close>

datatype memory_fault = OutOfBounds int

definition array_read :: "'v BPlusTreePage \<Rightarrow> int \<Rightarrow> memory_fault + (KeyType \<times> 'v)" where
  "array_read p index =
     (if 0 \<le> index \<and> index < GetSize p then Inr (array p ! nat index)
      else Inl (OutOfBounds index))"

definition Leaf_KeyAt_access :: "RID BPlusTreePage \<Rightarrow> int \<Rightarrow> memory_fault + KeyType" where
  "Leaf_KeyAt_access p index =
     (let key = KeyType_default in
        if index \<ge> 0 \<and> index < GetSize p
        then (case array_read p index of Inl f \<Rightarrow> Inl f | Inr e \<Rightarrow> Inr (fst e))
        else Inr key)"

definition Leaf_ValueAt_access :: "RID BPlusTreePage \<Rightarrow> int \<Rightarrow> memory_fault + RID" where
  "Leaf_ValueAt_access p index =
     (if index \<ge> 0 \<and> index < GetSize p
      then (case array_read p index of Inl f \<Rightarrow> Inl f | Inr e \<Rightarrow> Inr (snd e))
      else Inr RID_default)"

definition Internal_KeyAt_access ::
  "page_id_t BPlusTreePage \<Rightarrow> int \<Rightarrow> memory_fault + KeyType" where
  "Internal_KeyAt_access p index =
     (let key = KeyType_default in
        if index \<ge> 0 \<and> index < GetSize p
        then (case array_read p index of Inl f \<Rightarrow> Inl f | Inr e \<Rightarrow> Inr (fst e))
        else Inr key)"

definition Internal_ValueAt_access ::
  "page_id_t BPlusTreePage \<Rightarrow> int \<Rightarrow> memory_fault + page_id_t" where
  "Internal_ValueAt_access p index =
     (if index \<ge> 0 \<and> index < GetSize p
      then (case array_read p index of Inl f \<Rightarrow> Inl f | Inr e \<Rightarrow> Inr (snd e))
      else Inr INVALID_PAGE_ID)"

text \<open>
  For comparison, an accessor without the bounds check: \<^verbatim>\<open>return array_[index].first\<close>. It is
  not in the sources.
\<close>

definition KeyAt_unguarded :: "'v BPlusTreePage \<Rightarrow> int \<Rightarrow> memory_fault + KeyType" where
  "KeyAt_unguarded p index =
     (case array_read p index of Inl f \<Rightarrow> Inl f | Inr e \<Rightarrow> Inr (fst e))"

text \<open>Concrete pages used to exercise the theorems.\<close>

definition leaf_example :: "RID BPlusTreePage" where
  "leaf_example =
     \<lparr>max_size = 4, parent_page_id = INVALID_PAGE_ID, page_id = 1,
      next_page_id = INVALID_PAGE_ID,
      array = [(10, RID 0 10), (20, RID 0 20), (30, RID 0 30)]\<rparr>"

definition internal_example :: "page_id_t BPlusTreePage" where
  "internal_example =
     \<lparr>max_size = 4, parent_page_id = INVALID_PAGE_ID, page_id = 3,
      next_page_id = INVALID_PAGE_ID, array = [(0, 1), (40, 2)]\<rparr>"

section \<open>B+ tree index\<close>

text \<open>
  The tree reaches its pages through the buffer pool only (\<^verbatim>\<open>NewPage\<close>, \<^verbatim>\<open>FetchPage\<close>,
  \<^verbatim>\<open>UnpinPage\<close>, \<^verbatim>\<open>DeletePage\<close>). Seen from the tree the pool is a store of pages by page id:
  \<open>tree_pages\<close>. A pointer to a page is its page id in the store, every access through a
  pointer reads or writes the store, in the order of the source, so two pointers to the
  same page behave as in the code. \<^verbatim>\<open>NewPage\<close> hands out \<open>tree_next_page_id\<close>, as the pool
  numbers its pages. The model is of calls made one at a time, each with a transaction
  (\<open>FindLeaf\<close> asserts one for \<open>Insert\<close> and \<open>Remove\<close>), on a pool that has a frame whenever
  the tree asks for one. Not modelled: latches, pin counts and the transaction's page
  set, the header page's copy of the root id, and \<^verbatim>\<open>DeletePage\<close> of the pages marked during
  a removal (no page of the tree points to them any more).

  A page is a leaf or an internal page (the header's \<^verbatim>\<open>page_type_\<close>). Every operation
  returns \<open>None\<close> where the code faults, loops forever, or leaves the model: a fetch of a
  page that is not there, an exception, a failed assertion, a \<^verbatim>\<open>reinterpret_cast\<close> to the
  other page class, a \<open>SetKeyAt\<close> outside the live entries.
\<close>

datatype TreePage = LeafPage "RID BPlusTreePage" | InternalPage "page_id_t BPlusTreePage"

type_synonym page_store = "page_id_t \<rightharpoonup> TreePage"

record BPlusTree =
  root_page_id :: page_id_t
  leaf_max_size :: int
  internal_max_size :: int
  tree_pages :: page_store
  tree_next_page_id :: page_id_t

definition BPlusTree_init :: "int \<Rightarrow> int \<Rightarrow> page_id_t \<Rightarrow> BPlusTree" where
  "BPlusTree_init leaf_max internal_max first_page_id =
     \<lparr>root_page_id = INVALID_PAGE_ID, leaf_max_size = leaf_max,
      internal_max_size = internal_max, tree_pages = Map.empty,
      tree_next_page_id = first_page_id\<rparr>"

definition IsEmpty :: "BPlusTree \<Rightarrow> bool" where
  "IsEmpty t \<longleftrightarrow> root_page_id t = INVALID_PAGE_ID"

text \<open>The header of a page of either class.\<close>

definition IsLeafPage :: "TreePage \<Rightarrow> bool" where
  "IsLeafPage pg = (case pg of LeafPage l \<Rightarrow> True | InternalPage n \<Rightarrow> False)"

definition GetParentPageId :: "TreePage \<Rightarrow> page_id_t" where
  "GetParentPageId pg = (case pg of LeafPage l \<Rightarrow> parent_page_id l | InternalPage n \<Rightarrow> parent_page_id n)"

definition GetPageId :: "TreePage \<Rightarrow> page_id_t" where
  "GetPageId pg = (case pg of LeafPage l \<Rightarrow> page_id l | InternalPage n \<Rightarrow> page_id n)"

definition SetParentPageId :: "TreePage \<Rightarrow> page_id_t \<Rightarrow> TreePage" where
  "SetParentPageId pg parent_id =
     (case pg of LeafPage l \<Rightarrow> LeafPage (l\<lparr>parent_page_id := parent_id\<rparr>)
               | InternalPage n \<Rightarrow> InternalPage (n\<lparr>parent_page_id := parent_id\<rparr>))"

definition Page_GetSize :: "TreePage \<Rightarrow> int" where
  "Page_GetSize pg = (case pg of LeafPage l \<Rightarrow> GetSize l | InternalPage n \<Rightarrow> GetSize n)"

definition Page_GetMinSize :: "TreePage \<Rightarrow> int" where
  "Page_GetMinSize pg = (case pg of LeafPage l \<Rightarrow> GetMinSize l | InternalPage n \<Rightarrow> GetMinSize n)"

definition Page_KeyAt :: "TreePage \<Rightarrow> int \<Rightarrow> KeyType" where
  "Page_KeyAt pg index =
     (case pg of LeafPage l \<Rightarrow> Leaf_KeyAt l index | InternalPage n \<Rightarrow> Internal_KeyAt n index)"

text \<open>A fetched page read as a leaf, or as an internal page.\<close>

definition fetch_leaf :: "page_store \<Rightarrow> page_id_t \<Rightarrow> RID BPlusTreePage option" where
  "fetch_leaf st pid = (case st pid of Some (LeafPage l) \<Rightarrow> Some l | _ \<Rightarrow> None)"

definition fetch_internal :: "page_store \<Rightarrow> page_id_t \<Rightarrow> page_id_t BPlusTreePage option" where
  "fetch_internal st pid = (case st pid of Some (InternalPage n) \<Rightarrow> Some n | _ \<Rightarrow> None)"

subsection \<open>Moving one entry between two pages\<close>

text \<open>
  The leaf methods \<open>ShiftHeadItemToBack\<close> and \<open>ShiftTailItemToFront\<close> and the internal
  methods \<open>RelocateHeadToBack\<close> and \<open>RelocateTailToFront\<close>: the first page id is \<^verbatim>\<open>this\<close>
  (the donor), the second the recipient. The internal methods also fetch the moved child
  and set its parent to the recipient's page id.
\<close>

definition ShiftHeadItemToBack :: "page_store \<Rightarrow> page_id_t \<Rightarrow> page_id_t \<Rightarrow> page_store option" where
  "ShiftHeadItemToBack st donor recipient = do {
     d \<leftarrow> fetch_leaf st donor;
     if GetSize d = 0 then Some st
     else do {
       let item = hd (array d);
       let st1 = st(donor \<mapsto> LeafPage (d\<lparr>array := tl (array d)\<rparr>));
       r \<leftarrow> fetch_leaf st1 recipient;
       Some (st1(recipient \<mapsto> LeafPage (r\<lparr>array := array r @ [item]\<rparr>)))
     }
   }"

definition ShiftTailItemToFront :: "page_store \<Rightarrow> page_id_t \<Rightarrow> page_id_t \<Rightarrow> page_store option" where
  "ShiftTailItemToFront st donor recipient = do {
     d \<leftarrow> fetch_leaf st donor;
     if GetSize d = 0 then Some st
     else do {
       let item = last (array d);
       let st1 = st(donor \<mapsto> LeafPage (d\<lparr>array := butlast (array d)\<rparr>));
       r \<leftarrow> fetch_leaf st1 recipient;
       Some (st1(recipient \<mapsto> LeafPage (r\<lparr>array := item # array r\<rparr>)))
     }
   }"

definition RelocateHeadToBack :: "page_store \<Rightarrow> page_id_t \<Rightarrow> page_id_t \<Rightarrow> page_store option" where
  "RelocateHeadToBack st donor recipient = do {
     d \<leftarrow> fetch_internal st donor;
     if GetSize d = 0 then Some st
     else do {
       let item = hd (array d);
       let st1 = st(donor \<mapsto> InternalPage (d\<lparr>array := tl (array d)\<rparr>));
       r \<leftarrow> fetch_internal st1 recipient;
       let st2 = st1(recipient \<mapsto> InternalPage (r\<lparr>array := array r @ [item]\<rparr>));
       let child_pid = snd item;
       child \<leftarrow> st2 child_pid;
       Some (st2(child_pid \<mapsto> SetParentPageId child (page_id r)))
     }
   }"

definition RelocateTailToFront :: "page_store \<Rightarrow> page_id_t \<Rightarrow> page_id_t \<Rightarrow> page_store option" where
  "RelocateTailToFront st donor recipient = do {
     d \<leftarrow> fetch_internal st donor;
     if GetSize d = 0 then Some st
     else do {
       let item = last (array d);
       let st1 = st(donor \<mapsto> InternalPage (d\<lparr>array := butlast (array d)\<rparr>));
       r \<leftarrow> fetch_internal st1 recipient;
       let st2 = st1(recipient \<mapsto> InternalPage (r\<lparr>array := item # array r\<rparr>));
       let child_pid = snd item;
       child \<leftarrow> st2 child_pid;
       Some (st2(child_pid \<mapsto> SetParentPageId child (page_id r)))
     }
   }"

subsection \<open>Search\<close>

text \<open>
  \<open>FindLeaf\<close>: the descent \<^verbatim>\<open>while (true)\<close> from the root; the result is the page id of the
  leaf reached. On a store whose child pointers form a cycle the loop does not end.
\<close>

partial_function (option) FindLeaf_from :: "page_store \<Rightarrow> page_id_t \<Rightarrow> KeyType \<Rightarrow> page_id_t option" where
  "FindLeaf_from st pid key =
     (case st pid of
        None \<Rightarrow> None
      | Some (LeafPage l) \<Rightarrow> Some pid
      | Some (InternalPage n) \<Rightarrow>
          (case Internal_Lookup n key of
             None \<Rightarrow> None
           | Some child \<Rightarrow> FindLeaf_from st child key))"

declare FindLeaf_from.simps [code]

definition FindLeaf :: "BPlusTree \<Rightarrow> KeyType \<Rightarrow> page_id_t option" where
  "FindLeaf t key = FindLeaf_from (tree_pages t) (root_page_id t) key"

text \<open>\<open>GetValue\<close>: \<open>Some None\<close> is the result \<^verbatim>\<open>false\<close>, \<open>Some (Some v)\<close> the value found.\<close>

definition GetValue :: "BPlusTree \<Rightarrow> KeyType \<Rightarrow> RID option option" where
  "GetValue t key =
     (if IsEmpty t then Some None
      else do {
        leaf_pid \<leftarrow> FindLeaf t key;
        leaf \<leftarrow> fetch_leaf (tree_pages t) leaf_pid;
        Some (Leaf_Lookup leaf key)
      })"

subsection \<open>Insertion\<close>

text \<open>
  The loops that fill the new sibling of a split page:
  \<^verbatim>\<open>while (new->GetSize() < new->GetMinSize()) old->...TailToFront(new)\<close>.
\<close>

partial_function (option) leaf_split_loop :: "page_store \<Rightarrow> page_id_t \<Rightarrow> page_id_t \<Rightarrow> page_store option" where
  "leaf_split_loop st leaf_pid new_pid = do {
     new_leaf \<leftarrow> fetch_leaf st new_pid;
     if GetSize new_leaf < GetMinSize new_leaf
     then do {
       st1 \<leftarrow> ShiftTailItemToFront st leaf_pid new_pid;
       leaf_split_loop st1 leaf_pid new_pid
     }
     else Some st
   }"

declare leaf_split_loop.simps [code]

partial_function (option) internal_split_loop :: "page_store \<Rightarrow> page_id_t \<Rightarrow> page_id_t \<Rightarrow> page_store option" where
  "internal_split_loop st parent_pid new_pid = do {
     new_internal \<leftarrow> fetch_internal st new_pid;
     if GetSize new_internal < GetMinSize new_internal
     then do {
       st1 \<leftarrow> RelocateTailToFront st parent_pid new_pid;
       internal_split_loop st1 parent_pid new_pid
     }
     else Some st
   }"

declare internal_split_loop.simps [code]

text \<open>
  The new root over two pages (the same lines in \<open>Insert\<close> and in \<open>InsertIntoParent\<close>):
  a fresh internal page built by \<open>BuildRoot\<close>, both pages reparented, the root id set.
\<close>

definition new_root ::
  "BPlusTree \<Rightarrow> KeyType \<Rightarrow> page_id_t \<Rightarrow> KeyType \<Rightarrow> page_id_t \<Rightarrow> BPlusTree option" where
  "new_root t old_key old_pid new_key new_pid = do {
     let new_root_pid = tree_next_page_id t;
     old_node \<leftarrow> tree_pages t old_pid;
     new_node \<leftarrow> tree_pages t new_pid;
     let root_node = BuildRoot (Init new_root_pid INVALID_PAGE_ID (internal_max_size t))
                       old_key (GetPageId old_node) new_key (GetPageId new_node);
     let st1 = (tree_pages t)(new_root_pid \<mapsto> InternalPage root_node);
     old_node1 \<leftarrow> st1 old_pid;
     let st2 = st1(old_pid \<mapsto> SetParentPageId old_node1 new_root_pid);
     new_node1 \<leftarrow> st2 new_pid;
     let st3 = st2(new_pid \<mapsto> SetParentPageId new_node1 new_root_pid);
     Some (t\<lparr>tree_pages := st3, tree_next_page_id := new_root_pid + 1,
              root_page_id := new_root_pid\<rparr>)
   }"

partial_function (option) InsertIntoParent ::
  "BPlusTree \<Rightarrow> KeyType \<Rightarrow> page_id_t \<Rightarrow> KeyType \<Rightarrow> page_id_t \<Rightarrow> BPlusTree option" where
  "InsertIntoParent t old_key old_pid new_key new_pid = do {
     old_node \<leftarrow> tree_pages t old_pid;
     let parent_id = GetParentPageId old_node;
     if parent_id = INVALID_PAGE_ID then new_root t old_key old_pid new_key new_pid
     else do {
       parent_node \<leftarrow> fetch_internal (tree_pages t) parent_id;
       let idx = ValueIndex parent_node (GetPageId old_node);
       parent1 \<leftarrow> Internal_SetKeyAt parent_node idx old_key;
       new_node \<leftarrow> tree_pages t new_pid;
       (sz, parent2) \<leftarrow> Internal_Insert parent1 new_key (GetPageId new_node);
       let st1 = (tree_pages t)(parent_id \<mapsto> InternalPage parent2);
       new_node1 \<leftarrow> st1 new_pid;
       let st2 = st1(new_pid \<mapsto> SetParentPageId new_node1 parent_id);
       parent3 \<leftarrow> fetch_internal st2 parent_id;
       if GetSize parent3 > max_size parent3
       then do {
         let new_internal_pid = tree_next_page_id t;
         let new_internal = Init new_internal_pid (parent_page_id parent3) (max_size parent3);
         let st3 = st2(new_internal_pid \<mapsto> InternalPage new_internal);
         st4 \<leftarrow> internal_split_loop st3 parent_id new_internal_pid;
         new_internal1 \<leftarrow> fetch_internal st4 new_internal_pid;
         let middle_key = Internal_KeyAt new_internal1 0;
         parent4 \<leftarrow> fetch_internal st4 parent_id;
         InsertIntoParent
           (t\<lparr>tree_pages := st4, tree_next_page_id := new_internal_pid + 1\<rparr>)
           (Internal_KeyAt parent4 0) parent_id middle_key new_internal_pid
       }
       else Some (t\<lparr>tree_pages := st2\<rparr>)
     }
   }"

declare InsertIntoParent.simps [code]

text \<open>\<open>Insert\<close> returns its boolean result and the new tree.\<close>

definition Tree_Insert :: "BPlusTree \<Rightarrow> KeyType \<Rightarrow> RID \<Rightarrow> (bool \<times> BPlusTree) option" where
  "Tree_Insert t key val =
     (if IsEmpty t
      then
        let new_root_pid = tree_next_page_id t;
            (rv, leaf) = Leaf_Insert (Init new_root_pid INVALID_PAGE_ID (leaf_max_size t)) key val
        in Some (rv \<noteq> -1,
                 t\<lparr>tree_pages := (tree_pages t)(new_root_pid \<mapsto> LeafPage leaf),
                   tree_next_page_id := new_root_pid + 1,
                   root_page_id := new_root_pid\<rparr>)
      else do {
        leaf_pid \<leftarrow> FindLeaf t key;
        leaf \<leftarrow> fetch_leaf (tree_pages t) leaf_pid;
        let (rv, leaf1) = Leaf_Insert leaf key val;
        if rv = -1 then Some (False, t)
        else
          let st1 = (tree_pages t)(leaf_pid \<mapsto> LeafPage leaf1) in
            if GetSize leaf1 < max_size leaf1 then Some (True, t\<lparr>tree_pages := st1\<rparr>)
            else do {
              let new_pid = tree_next_page_id t;
              let new_leaf = (Init new_pid (parent_page_id leaf1) (max_size leaf1))
                               \<lparr>next_page_id := next_page_id leaf1\<rparr>;
              let st2 = st1(new_pid \<mapsto> LeafPage new_leaf);
              leaf2 \<leftarrow> fetch_leaf st2 leaf_pid;
              let st3 = st2(leaf_pid \<mapsto> LeafPage (leaf2\<lparr>next_page_id := page_id new_leaf\<rparr>));
              st4 \<leftarrow> leaf_split_loop st3 leaf_pid new_pid;
              leaf3 \<leftarrow> fetch_leaf st4 leaf_pid;
              new_leaf1 \<leftarrow> fetch_leaf st4 new_pid;
              let old_first_key = Leaf_KeyAt leaf3 0;
              let new_first_key = Leaf_KeyAt new_leaf1 0;
              let t1 = t\<lparr>tree_pages := st4, tree_next_page_id := new_pid + 1\<rparr>;
              t2 \<leftarrow> (if IsRootPage leaf3
                     then new_root t1 old_first_key leaf_pid new_first_key new_pid
                     else InsertIntoParent t1 old_first_key leaf_pid new_first_key new_pid);
              Some (True, t2)
            }
      })"

subsection \<open>Removal\<close>

definition HandleRootAfterDelete :: "BPlusTree \<Rightarrow> page_id_t \<Rightarrow> BPlusTree option" where
  "HandleRootAfterDelete t node_pid = do {
     node \<leftarrow> tree_pages t node_pid;
     if GetParentPageId node \<noteq> INVALID_PAGE_ID then Some t
     else
       (case node of
          LeafPage leaf_root \<Rightarrow>
            if GetSize leaf_root = 0 then Some (t\<lparr>root_page_id := INVALID_PAGE_ID\<rparr>)
            else Some t
        | InternalPage internal_root \<Rightarrow>
            if GetSize internal_root = 1
            then do {
              let child_pid = Internal_ValueAt internal_root 0;
              child_node \<leftarrow> tree_pages t child_pid;
              Some (t\<lparr>root_page_id := child_pid,
                       tree_pages := (tree_pages t)
                         (child_pid \<mapsto> SetParentPageId child_node INVALID_PAGE_ID)\<rparr>)
            }
            else Some t)
   }"

text \<open>
  \<open>RedistributeNode(neighbor, cur, from_prev)\<close> and \<open>CoalesceNode(neighbor, cur)\<close> choose
  the leaf or the internal routine by the class of \<open>cur\<close>.
\<close>

definition RedistributeNode ::
  "page_store \<Rightarrow> page_id_t \<Rightarrow> page_id_t \<Rightarrow> bool \<Rightarrow> page_store option" where
  "RedistributeNode st neighbor_pid cur_pid from_prev = do {
     cur \<leftarrow> st cur_pid;
     if IsLeafPage cur
     then (if from_prev then ShiftTailItemToFront st neighbor_pid cur_pid
           else ShiftHeadItemToBack st neighbor_pid cur_pid)
     else (if from_prev then RelocateTailToFront st neighbor_pid cur_pid
           else RelocateHeadToBack st neighbor_pid cur_pid)
   }"

partial_function (option) CoalesceLeafNode_loop ::
  "page_store \<Rightarrow> page_id_t \<Rightarrow> page_id_t \<Rightarrow> page_store option" where
  "CoalesceLeafNode_loop st neighbor_pid cur_pid = do {
     cur_leaf \<leftarrow> fetch_leaf st cur_pid;
     if GetSize cur_leaf > 0
     then do {
       st1 \<leftarrow> ShiftHeadItemToBack st cur_pid neighbor_pid;
       CoalesceLeafNode_loop st1 neighbor_pid cur_pid
     }
     else Some st
   }"

declare CoalesceLeafNode_loop.simps [code]

definition CoalesceLeafNode :: "page_store \<Rightarrow> page_id_t \<Rightarrow> page_id_t \<Rightarrow> page_store option" where
  "CoalesceLeafNode st neighbor_pid cur_pid = do {
     st1 \<leftarrow> CoalesceLeafNode_loop st neighbor_pid cur_pid;
     cur_leaf \<leftarrow> fetch_leaf st1 cur_pid;
     neighbor_leaf \<leftarrow> fetch_leaf st1 neighbor_pid;
     Some (st1(neighbor_pid \<mapsto> LeafPage (neighbor_leaf\<lparr>next_page_id := next_page_id cur_leaf\<rparr>)))
   }"

partial_function (option) CoalesceInternalNode ::
  "page_store \<Rightarrow> page_id_t \<Rightarrow> page_id_t \<Rightarrow> page_store option" where
  "CoalesceInternalNode st neighbor_pid cur_pid = do {
     cur_internal \<leftarrow> fetch_internal st cur_pid;
     if GetSize cur_internal > 0
     then do {
       st1 \<leftarrow> RelocateHeadToBack st cur_pid neighbor_pid;
       CoalesceInternalNode st1 neighbor_pid cur_pid
     }
     else Some st
   }"

declare CoalesceInternalNode.simps [code]

definition CoalesceNode :: "page_store \<Rightarrow> page_id_t \<Rightarrow> page_id_t \<Rightarrow> page_store option" where
  "CoalesceNode st neighbor_pid cur_pid = do {
     cur \<leftarrow> st cur_pid;
     if IsLeafPage cur then CoalesceLeafNode st neighbor_pid cur_pid
     else CoalesceInternalNode st neighbor_pid cur_pid
   }"

text \<open>
  The three phases of \<open>RedistributeOrMerge\<close> for a node that is not the root, at \<open>index\<close>
  in its parent. A borrow phase returns \<open>Some (Some st)\<close> when it borrowed (the function
  then returns), \<open>Some None\<close> when it did not.
\<close>

definition borrow_from_left ::
  "page_store \<Rightarrow> page_id_t \<Rightarrow> page_id_t \<Rightarrow> int \<Rightarrow> page_store option option" where
  "borrow_from_left st node_pid parent_pid index =
     (if index > 0
      then do {
        parent \<leftarrow> fetch_internal st parent_pid;
        let left_pid = Internal_ValueAt parent (index - 1);
        left \<leftarrow> st left_pid;
        if Page_GetSize left > Page_GetMinSize left
        then do {
          st1 \<leftarrow> RedistributeNode st left_pid node_pid True;
          node1 \<leftarrow> st1 node_pid;
          parent1 \<leftarrow> fetch_internal st1 parent_pid;
          parent2 \<leftarrow> Internal_SetKeyAt parent1 index (Page_KeyAt node1 0);
          Some (Some (st1(parent_pid \<mapsto> InternalPage parent2)))
        }
        else Some None
      }
      else Some None)"

definition borrow_from_right ::
  "page_store \<Rightarrow> page_id_t \<Rightarrow> page_id_t \<Rightarrow> int \<Rightarrow> page_store option option" where
  "borrow_from_right st node_pid parent_pid index = do {
     parent \<leftarrow> fetch_internal st parent_pid;
     if index < GetSize parent - 1
     then do {
       let right_pid = Internal_ValueAt parent (index + 1);
       right \<leftarrow> st right_pid;
       if Page_GetSize right > Page_GetMinSize right
       then do {
         st1 \<leftarrow> RedistributeNode st right_pid node_pid False;
         right1 \<leftarrow> st1 right_pid;
         parent1 \<leftarrow> fetch_internal st1 parent_pid;
         parent2 \<leftarrow> Internal_SetKeyAt parent1 (index + 1) (Page_KeyAt right1 0);
         Some (Some (st1(parent_pid \<mapsto> InternalPage parent2)))
       }
       else Some None
     }
     else Some None
   }"

definition merge_with_sibling ::
  "page_store \<Rightarrow> page_id_t \<Rightarrow> page_id_t \<Rightarrow> int \<Rightarrow> page_store option" where
  "merge_with_sibling st node_pid parent_pid index = do {
     parent \<leftarrow> fetch_internal st parent_pid;
     if index > 0
     then do {
       let left_pid = Internal_ValueAt parent (index - 1);
       left \<leftarrow> st left_pid;
       if Page_GetSize left = Page_GetMinSize left
       then do {
         st1 \<leftarrow> CoalesceNode st left_pid node_pid;
         parent1 \<leftarrow> fetch_internal st1 parent_pid;
         Some (st1(parent_pid \<mapsto> InternalPage (Internal_RemoveAt parent1 index)))
       }
       else Some st
     }
     else if index < GetSize parent - 1
     then do {
       let right_pid = Internal_ValueAt parent (index + 1);
       right \<leftarrow> st right_pid;
       if Page_GetSize right = Page_GetMinSize right
       then do {
         st1 \<leftarrow> CoalesceNode st node_pid right_pid;
         parent1 \<leftarrow> fetch_internal st1 parent_pid;
         Some (st1(parent_pid \<mapsto> InternalPage (Internal_RemoveAt parent1 (index + 1))))
       }
       else Some st
     }
     else Some st
   }"

partial_function (option) RedistributeOrMerge :: "BPlusTree \<Rightarrow> page_id_t \<Rightarrow> BPlusTree option" where
  "RedistributeOrMerge t node_pid = do {
     node \<leftarrow> tree_pages t node_pid;
     if GetParentPageId node = INVALID_PAGE_ID then HandleRootAfterDelete t node_pid
     else do {
       let parent_pid = GetParentPageId node;
       parent \<leftarrow> fetch_internal (tree_pages t) parent_pid;
       let index = ValueIndex parent (GetPageId node);
       from_left \<leftarrow> borrow_from_left (tree_pages t) node_pid parent_pid index;
       case from_left of
         Some st1 \<Rightarrow> Some (t\<lparr>tree_pages := st1\<rparr>)
       | None \<Rightarrow> do {
           from_right \<leftarrow> borrow_from_right (tree_pages t) node_pid parent_pid index;
           case from_right of
             Some st1 \<Rightarrow> Some (t\<lparr>tree_pages := st1\<rparr>)
           | None \<Rightarrow> do {
               st1 \<leftarrow> merge_with_sibling (tree_pages t) node_pid parent_pid index;
               parent1 \<leftarrow> fetch_internal st1 parent_pid;
               if GetSize parent1 < GetMinSize parent1
               then RedistributeOrMerge (t\<lparr>tree_pages := st1\<rparr>) parent_pid
               else Some (t\<lparr>tree_pages := st1\<rparr>)
             }
         }
     }
   }"

declare RedistributeOrMerge.simps [code]

definition Tree_Remove :: "BPlusTree \<Rightarrow> KeyType \<Rightarrow> BPlusTree option" where
  "Tree_Remove t key =
     (if IsEmpty t then Some t
      else do {
        leaf_pid \<leftarrow> FindLeaf t key;
        leaf \<leftarrow> fetch_leaf (tree_pages t) leaf_pid;
        let idx = Leaf_KeyIndex leaf key;
        if idx \<ge> GetSize leaf \<or> comparator (Leaf_KeyAt leaf idx) key \<noteq> 0 then Some t
        else do {
          let leaf1 = Leaf_RemoveAt leaf idx;
          let t1 = t\<lparr>tree_pages := (tree_pages t)(leaf_pid \<mapsto> LeafPage leaf1)\<rparr>;
          if GetSize leaf1 < GetMinSize leaf1 then RedistributeOrMerge t1 leaf_pid
          else Some t1
        }
      })"

subsection \<open>Sequences of operations\<close>

text \<open>
  A run of insertions (key \<open>k\<close> with the record id \<open>RID 0 k\<close>; the boolean is the
  conjunction of the results of \<open>Insert\<close>) and a run of removals.
\<close>

fun Insert_all :: "BPlusTree \<Rightarrow> KeyType list \<Rightarrow> (bool \<times> BPlusTree) option" where
  "Insert_all t [] = Some (True, t)"
| "Insert_all t (k # ks) = do {
     (ok, t1) \<leftarrow> Tree_Insert t k (RID 0 (nat k));
     (oks, t2) \<leftarrow> Insert_all t1 ks;
     Some (ok \<and> oks, t2)
   }"

fun Remove_all :: "BPlusTree \<Rightarrow> KeyType list \<Rightarrow> BPlusTree option" where
  "Remove_all t [] = Some t"
| "Remove_all t (k # ks) = do { t1 \<leftarrow> Tree_Remove t k; Remove_all t1 ks }"

text \<open>
  Concrete trees used to exercise the theorems. In \<open>borrow_leaf_example\<close> the leaf 1 (one
  entry, capacity 4) is underfull and its right sibling 2 holds three entries. In
  \<open>borrow_internal_example\<close> the internal page 7 (one child) is underfull and its right
  sibling 8 holds three children.
\<close>

definition borrow_leaf_example :: BPlusTree where
  "borrow_leaf_example =
     \<lparr>root_page_id = 3, leaf_max_size = 4, internal_max_size = 4,
      tree_pages = map_of
        [(1, LeafPage \<lparr>max_size = 4, parent_page_id = 3, page_id = 1, next_page_id = 2,
                       array = [(10, RID 0 10)]\<rparr>),
         (2, LeafPage \<lparr>max_size = 4, parent_page_id = 3, page_id = 2,
                       next_page_id = INVALID_PAGE_ID,
                       array = [(30, RID 0 30), (40, RID 0 40), (50, RID 0 50)]\<rparr>),
         (3, InternalPage \<lparr>max_size = 4, parent_page_id = INVALID_PAGE_ID, page_id = 3,
                           next_page_id = INVALID_PAGE_ID, array = [(0, 1), (30, 2)]\<rparr>)],
      tree_next_page_id = 4\<rparr>"

definition borrow_internal_example :: BPlusTree where
  "borrow_internal_example =
     \<lparr>root_page_id = 9, leaf_max_size = 4, internal_max_size = 4,
      tree_pages = map_of
        [(1, LeafPage \<lparr>max_size = 4, parent_page_id = 7, page_id = 1, next_page_id = 4,
                       array = [(10, RID 0 10), (20, RID 0 20), (30, RID 0 30)]\<rparr>),
         (4, LeafPage \<lparr>max_size = 4, parent_page_id = 8, page_id = 4, next_page_id = 5,
                       array = [(50, RID 0 50), (55, RID 0 55)]\<rparr>),
         (5, LeafPage \<lparr>max_size = 4, parent_page_id = 8, page_id = 5, next_page_id = 6,
                       array = [(60, RID 0 60), (65, RID 0 65)]\<rparr>),
         (6, LeafPage \<lparr>max_size = 4, parent_page_id = 8, page_id = 6,
                       next_page_id = INVALID_PAGE_ID,
                       array = [(70, RID 0 70), (75, RID 0 75)]\<rparr>),
         (7, InternalPage \<lparr>max_size = 4, parent_page_id = 9, page_id = 7,
                           next_page_id = INVALID_PAGE_ID, array = [(0, 1)]\<rparr>),
         (8, InternalPage \<lparr>max_size = 4, parent_page_id = 9, page_id = 8,
                           next_page_id = INVALID_PAGE_ID,
                           array = [(50, 4), (60, 5), (70, 6)]\<rparr>),
         (9, InternalPage \<lparr>max_size = 4, parent_page_id = INVALID_PAGE_ID, page_id = 9,
                           next_page_id = INVALID_PAGE_ID, array = [(0, 7), (50, 8)]\<rparr>)],
      tree_next_page_id = 10\<rparr>"

section \<open>Extendible hash table\<close>

text \<open>
  The table of \<^verbatim>\<open>project1-submission\<close>. The directory \<^verbatim>\<open>dir_\<close> is a vector of shared pointers to
  buckets: here a list of bucket ids into the list \<open>buckets\<close> of all buckets allocated so
  far (a new bucket is appended), so that two directory slots alias one bucket exactly
  when they hold the same id. \<^verbatim>\<open>std::hash<K>\<close> is a parameter \<open>h\<close>, a \<^verbatim>\<open>size_t\<close> read as a natural
  number, and depths are natural numbers (they start at 0 and are only incremented).
\<close>

record ('k, 'v) Bucket =
  bucket_capacity :: nat
  depth :: nat
  items :: "('k \<times> 'v) list"

definition IsFull :: "('k, 'v) Bucket \<Rightarrow> bool" where
  "IsFull b \<longleftrightarrow> length (items b) = bucket_capacity b"

definition Bucket_Find :: "('k, 'v) Bucket \<Rightarrow> 'k \<Rightarrow> 'v option" where
  "Bucket_Find b key = map_of (items b) key"

fun remove_first_key :: "'k \<Rightarrow> ('k \<times> 'v) list \<Rightarrow> ('k \<times> 'v) list" where
  "remove_first_key key [] = []"
| "remove_first_key key (item # rest) =
     (if fst item = key then rest else item # remove_first_key key rest)"

definition Bucket_Remove :: "('k, 'v) Bucket \<Rightarrow> 'k \<Rightarrow> bool \<times> ('k, 'v) Bucket" where
  "Bucket_Remove b key =
     (if key \<in> fst ` set (items b) then (True, b\<lparr>items := remove_first_key key (items b)\<rparr>)
      else (False, b))"

definition Bucket_Insert :: "('k, 'v) Bucket \<Rightarrow> 'k \<Rightarrow> 'v \<Rightarrow> bool \<times> ('k, 'v) Bucket" where
  "Bucket_Insert b key val =
     (if key \<in> fst ` set (items b) then (True, b\<lparr>items := AList.update key val (items b)\<rparr>)
      else if IsFull b then (False, b)
      else (True, b\<lparr>items := items b @ [(key, val)]\<rparr>))"

record ('k, 'v) ExtendibleHashTable =
  global_depth :: nat
  bucket_size :: nat
  num_buckets :: int
  dir :: "nat list"
  buckets :: "('k, 'v) Bucket list"

definition ExtendibleHashTable_init :: "nat \<Rightarrow> ('k, 'v) ExtendibleHashTable" where
  "ExtendibleHashTable_init bsz =
     \<lparr>global_depth = 0, bucket_size = bsz, num_buckets = 1, dir = [0],
      buckets = [\<lparr>bucket_capacity = bsz, depth = 0, items = []\<rparr>]\<rparr>"

text \<open>
  \<open>IndexOf\<close> computes \<^verbatim>\<open>(1 << global_depth_) - 1\<close> in \<^verbatim>\<open>int\<close>: the shift is defined for a global
  depth below 31 and the subtraction overflows at 31, so that from a global depth of 31
  on the behaviour is undefined, and \<open>IndexOf\<close> and the operations that call it are \<open>None\<close>.
\<close>

definition IndexOf :: "('k \<Rightarrow> nat) \<Rightarrow> ('k, 'v) ExtendibleHashTable \<Rightarrow> 'k \<Rightarrow> nat option" where
  "IndexOf h t key =
     (if global_depth t < 31 then Some (h key AND (push_bit (global_depth t) 1 - 1)) else None)"

definition Hash_Find ::
  "('k \<Rightarrow> nat) \<Rightarrow> ('k, 'v) ExtendibleHashTable \<Rightarrow> 'k \<Rightarrow> 'v option option" where
  "Hash_Find h t key =
     do { idx \<leftarrow> IndexOf h t key;
          Some (Bucket_Find (buckets t ! (dir t ! idx)) key) }"

definition Hash_Remove ::
  "('k \<Rightarrow> nat) \<Rightarrow> ('k, 'v) ExtendibleHashTable \<Rightarrow> 'k
     \<Rightarrow> (bool \<times> ('k, 'v) ExtendibleHashTable) option" where
  "Hash_Remove h t key =
     do { idx \<leftarrow> IndexOf h t key;
          let bid = dir t ! idx;
              (found, b) = Bucket_Remove (buckets t ! bid) key
          in Some (found, t\<lparr>buckets := (buckets t)[bid := b]\<rparr>) }"

text \<open>
  \<open>SplitBucket\<close>. The first loop moves the items whose hash has bit \<open>old_depth\<close> set to
  the new bucket (through the new bucket's \<open>Insert\<close>, its result ignored) and erases them
  from the old one; the second loop repoints the directory slots of the old bucket whose
  index has that bit set.
\<close>

fun SplitBucket_items ::
  "('k \<Rightarrow> nat) \<Rightarrow> nat \<Rightarrow> ('k \<times> 'v) list \<Rightarrow> ('k, 'v) Bucket
     \<Rightarrow> ('k \<times> 'v) list \<times> ('k, 'v) Bucket" where
  "SplitBucket_items h old_depth [] new_bucket = ([], new_bucket)"
| "SplitBucket_items h old_depth (item # rest) new_bucket =
     (if drop_bit old_depth (h (fst item)) AND 1 \<noteq> 0
      then SplitBucket_items h old_depth rest
             (snd (Bucket_Insert new_bucket (fst item) (snd item)))
      else (let (kept, nb) = SplitBucket_items h old_depth rest new_bucket
            in (item # kept, nb)))"

fun SplitBucket_dir :: "nat \<Rightarrow> nat \<Rightarrow> nat \<Rightarrow> nat \<Rightarrow> nat list \<Rightarrow> nat list" where
  "SplitBucket_dir bucket new_bucket old_depth i [] = []"
| "SplitBucket_dir bucket new_bucket old_depth i (d # ds) =
     (if d = bucket \<and> drop_bit old_depth i AND 1 \<noteq> 0 then new_bucket else d)
       # SplitBucket_dir bucket new_bucket old_depth (i + 1) ds"

definition SplitBucket ::
  "('k \<Rightarrow> nat) \<Rightarrow> ('k, 'v) ExtendibleHashTable \<Rightarrow> nat \<Rightarrow> nat \<Rightarrow> ('k, 'v) ExtendibleHashTable" where
  "SplitBucket h t bucket bucket_idx =
     (let b = buckets t ! bucket;
          old_depth = depth b;
          new_bucket = \<lparr>bucket_capacity = bucket_size t, depth = old_depth + 1, items = []\<rparr>;
          (kept, nb) = SplitBucket_items h old_depth (items b) new_bucket;
          new_id = length (buckets t)
      in t\<lparr>num_buckets := num_buckets t + 1,
           buckets := (buckets t)[bucket := b\<lparr>depth := old_depth + 1, items := kept\<rparr>] @ [nb],
           dir := SplitBucket_dir bucket new_id old_depth 0 (dir t)\<rparr>)"

text \<open>
  \<open>Insert\<close>: the loop \<^verbatim>\<open>while (true)\<close>. It does not return when the key's bucket stays full
  after every split (a bucket size of 0, or more than \<open>bucket_size\<close> keys whose hashes agree
  on their low 31 bits); the result is then \<open>None\<close>.
\<close>

partial_function (option) Hash_Insert ::
  "('k \<Rightarrow> nat) \<Rightarrow> ('k, 'v) ExtendibleHashTable \<Rightarrow> 'k \<Rightarrow> 'v
     \<Rightarrow> ('k, 'v) ExtendibleHashTable option" where
  "Hash_Insert h t key val =
     do { idx \<leftarrow> IndexOf h t key;
          let bucket = dir t ! idx;
              (ok, b) = Bucket_Insert (buckets t ! bucket) key val
          in if ok then Some (t\<lparr>buckets := (buckets t)[bucket := b]\<rparr>)
             else
               let t1 = (if depth (buckets t ! bucket) = global_depth t
                         then t\<lparr>global_depth := global_depth t + 1, dir := dir t @ dir t\<rparr>
                         else t)
               in Hash_Insert h (SplitBucket h t1 bucket idx) key val }"

declare Hash_Insert.simps [code]

text \<open>The states of a table: what a sequence of calls of \<open>Insert\<close>, \<open>Remove\<close> and \<open>Find\<close> that
  return reaches from the initial state (\<open>Find\<close> changes nothing).\<close>

inductive reachable :: "('k \<Rightarrow> nat) \<Rightarrow> nat \<Rightarrow> ('k, 'v) ExtendibleHashTable \<Rightarrow> bool"
  for h :: "'k \<Rightarrow> nat" and bsz :: nat where
  reachable_init: "reachable h bsz (ExtendibleHashTable_init bsz)"
| reachable_Insert: "reachable h bsz t \<Longrightarrow> Hash_Insert h t key val = Some t' \<Longrightarrow> reachable h bsz t'"
| reachable_Remove: "reachable h bsz t \<Longrightarrow> Hash_Remove h t key = Some (found, t') \<Longrightarrow> reachable h bsz t'"

text \<open>
  The invariant: the directory has \<open>2 ^ global_depth\<close> slots, each holding the id of an
  allocated bucket whose local depth is at most the global depth; the keys of the bucket
  of slot \<open>i\<close> agree with \<open>i\<close> on the low \<open>local_depth\<close> bits of their hash; and two slots that
  share a bucket agree on their low \<open>local_depth\<close> bits.
\<close>

definition hash_inv :: "('k \<Rightarrow> nat) \<Rightarrow> ('k, 'v) ExtendibleHashTable \<Rightarrow> bool" where
  "hash_inv h t \<longleftrightarrow>
     length (dir t) = 2 ^ global_depth t \<and>
     (\<forall>i < length (dir t).
        dir t ! i < length (buckets t) \<and>
        depth (buckets t ! (dir t ! i)) \<le> global_depth t \<and>
        (\<forall>k \<in> fst ` set (items (buckets t ! (dir t ! i))).
           h k AND (push_bit (depth (buckets t ! (dir t ! i))) 1 - 1) =
           i AND (push_bit (depth (buckets t ! (dir t ! i))) 1 - 1)) \<and>
        (\<forall>j < length (dir t). dir t ! j = dir t ! i \<longrightarrow>
           j AND (push_bit (depth (buckets t ! (dir t ! i))) 1 - 1) =
           i AND (push_bit (depth (buckets t ! (dir t ! i))) 1 - 1)))"

text \<open>A run of \<open>Insert\<close> over a list of entries, and a table of bucket size 2 under the
  identity hash of non-negative keys.\<close>

fun Hash_Insert_all ::
  "('k \<Rightarrow> nat) \<Rightarrow> ('k, 'v) ExtendibleHashTable \<Rightarrow> ('k \<times> 'v) list
     \<Rightarrow> ('k, 'v) ExtendibleHashTable option" where
  "Hash_Insert_all h t [] = Some t"
| "Hash_Insert_all h t (kv # kvs) =
     do { t' \<leftarrow> Hash_Insert h t (fst kv) (snd kv); Hash_Insert_all h t' kvs }"

definition hash_table_example :: "(int, int) ExtendibleHashTable" where
  "hash_table_example =
     \<lparr>global_depth = 2, bucket_size = 2, num_buckets = 3, dir = [0, 1, 2, 1],
      buckets = [\<lparr>bucket_capacity = 2, depth = 2, items = [(0, 10), (4, 14)]\<rparr>,
                 \<lparr>bucket_capacity = 2, depth = 1, items = []\<rparr>,
                 \<lparr>bucket_capacity = 2, depth = 2, items = [(2, 12), (6, 16)]\<rparr>]\<rparr>"
section \<open>The replacer's victim selection\<close>

subsection \<open>The loop of \<open>Evict\<close> keeps the best frame seen so far\<close>

lemma Evict_loop_ok:
  "acc_ok r seen acc \<Longrightarrow> \<forall>p \<in> set xs. fst p \<noteq> -1 \<Longrightarrow>
   acc_ok r (seen @ xs) (Evict_loop r xs acc)"
proof (induction xs arbitrary: seen acc)
  case Nil
  then show ?case by simp
next
  case (Cons x xs)
  obtain fid fi where x: "x = (fid, fi)" by (cases x)
  obtain c cd ce where acc: "acc = (c, cd, ce)" by (cases acc)
  from Cons.prems have fid: "fid \<noteq> -1" and rest: "\<forall>p \<in> set xs. fst p \<noteq> -1"
    by (auto simp: x)
  have step: "\<And>acc'. acc_ok r (seen @ [x]) acc' \<Longrightarrow> acc_ok r (seen @ x # xs) (Evict_loop r xs acc')"
    using Cons.IH[OF _ rest, of "seen @ [x]"] by simp
  show ?case
  proof (cases "is_evictable fi")
    case False
    have "acc_ok r (seen @ [x]) acc"
      using Cons.prems(1) False unfolding acc_ok_def x by auto
    from step[OF this] show ?thesis using False by (simp add: x acc)
  next
    case True
    let ?d = "CalculateBackwardKDistance r fi"
    let ?e = "earliest_timestamp fi"
    have refl: "no_better r fi fi" by (simp add: no_better_def)
    show ?thesis
    proof (cases "c = -1")
      case c: True
      have "acc_ok r (seen @ [x]) (fid, ?d, ?e)"
        using Cons.prems(1) True fid c refl unfolding acc_ok_def x acc by auto
      from step[OF this] show ?thesis using True c by (simp add: x acc Let_def)
    next
      case c: False
      from Cons.prems(1) c obtain ci where ci: "(c, ci) \<in> set seen" "is_evictable ci"
        "cd = CalculateBackwardKDistance r ci" "ce = earliest_timestamp ci"
        "\<forall>p \<in> set seen. is_evictable (snd p) \<longrightarrow> no_better r (snd p) ci"
        unfolding acc_ok_def acc by auto
      consider (gt) "?d > cd" | (tie) "\<not> ?d > cd" "?d = cd \<and> ?d = SIZE_MAX \<and> ?e < ce"
        | (keep) "\<not> ?d > cd" "\<not> (?d = cd \<and> ?d = SIZE_MAX \<and> ?e < ce)" by blast
      then show ?thesis
      proof cases
        case gt
        have "\<forall>p \<in> set seen. is_evictable (snd p) \<longrightarrow> no_better r (snd p) fi"
          using ci(5) gt ci(3) unfolding no_better_def by fastforce
        then have "acc_ok r (seen @ [x]) (fid, ?d, ?e)"
          using True fid refl unfolding acc_ok_def x by auto
        from step[OF this] show ?thesis using True c gt by (simp add: x acc Let_def)
      next
        case tie
        have "\<forall>p \<in> set seen. is_evictable (snd p) \<longrightarrow> no_better r (snd p) fi"
          using ci(5) tie ci(3,4) unfolding no_better_def by fastforce
        then have "acc_ok r (seen @ [x]) (fid, cd, ?e)"
          using True fid refl tie unfolding acc_ok_def x by auto
        from step[OF this] show ?thesis using True c tie by (simp add: x acc Let_def)
      next
        case keep
        have "no_better r fi ci"
          using keep ci(3,4) unfolding no_better_def by auto
        then have "acc_ok r (seen @ [x]) (c, cd, ce)"
          using True c ci unfolding acc_ok_def x by auto
        from step[OF this] show ?thesis using True c keep by (auto simp add: x acc Let_def)
      qed
    qed
  qed
qed

lemma CalculateBackwardKDistance_spec:
  assumes "frame_info_wf r fi" "0 < lru_k r" "current_timestamp r < SIZE_MAX"
  shows "length (history fi) < lru_k r \<Longrightarrow>
           CalculateBackwardKDistance r fi = SIZE_MAX \<and>
           backward_k_distance (current_timestamp r) (lru_k r) (history fi) = \<infinity>"
    and "\<not> length (history fi) < lru_k r \<Longrightarrow>
           CalculateBackwardKDistance r fi < SIZE_MAX \<and>
           backward_k_distance (current_timestamp r) (lru_k r) (history fi) =
             enat (CalculateBackwardKDistance r fi)"
proof -
  show "length (history fi) < lru_k r \<Longrightarrow>
           CalculateBackwardKDistance r fi = SIZE_MAX \<and>
           backward_k_distance (current_timestamp r) (lru_k r) (history fi) = \<infinity>"
    by (simp add: CalculateBackwardKDistance_def backward_k_distance_def)
next
  assume n: "\<not> length (history fi) < lru_k r"
  with assms(1) have len: "length (history fi) = lru_k r" and ne: "history fi \<noteq> []"
    and le: "hd (history fi) \<le> current_timestamp r"
    by (auto simp: frame_info_wf_def)
  have "history fi ! 0 = hd (history fi)" using ne by (simp add: hd_conv_nth)
  then show "CalculateBackwardKDistance r fi < SIZE_MAX \<and>
           backward_k_distance (current_timestamp r) (lru_k r) (history fi) =
             enat (CalculateBackwardKDistance r fi)"
    using n len le assms(3)
    by (simp add: CalculateBackwardKDistance_def backward_k_distance_def size_t_sub_def)
qed

lemma no_better_spec:
  assumes "frame_info_wf r gi" "frame_info_wf r fi" "0 < lru_k r" "current_timestamp r < SIZE_MAX"
    and "no_better r gi fi"
  shows "backward_k_distance (current_timestamp r) (lru_k r) (history gi)
           \<le> backward_k_distance (current_timestamp r) (lru_k r) (history fi) \<and>
         (backward_k_distance (current_timestamp r) (lru_k r) (history gi) = \<infinity> \<and>
          backward_k_distance (current_timestamp r) (lru_k r) (history fi) = \<infinity>
            \<longrightarrow> hd (history fi) \<le> hd (history gi))"
proof -
  note g = CalculateBackwardKDistance_spec[OF assms(1,3,4)]
  note f = CalculateBackwardKDistance_spec[OF assms(2,3,4)]
  show ?thesis
  proof (cases "length (history gi) < lru_k r"; cases "length (history fi) < lru_k r")
    assume a: "length (history gi) < lru_k r" "length (history fi) < lru_k r"
    then have "earliest_timestamp fi \<le> earliest_timestamp gi"
      using assms(5) g(1) f(1) by (auto simp: no_better_def)
    then show ?thesis using a g(1) f(1) assms(1,2) by (auto simp: frame_info_wf_def)
  next
    assume a: "length (history gi) < lru_k r" "\<not> length (history fi) < lru_k r"
    then show ?thesis using assms(5) g(1) f(2) by (auto simp: no_better_def)
  next
    assume a: "\<not> length (history gi) < lru_k r" "length (history fi) < lru_k r"
    then show ?thesis using g(2) f(1) by auto
  next
    assume a: "\<not> length (history gi) < lru_k r" "\<not> length (history fi) < lru_k r"
    then show ?thesis using assms(5) g(2) f(2) by (auto simp: no_better_def)
  qed
qed

lemma Evict_spec:
  assumes wf: "replacer_wf r"
  shows "case Evict r of
           (None, r') \<Rightarrow> (\<forall>p \<in> set (frame_table r). \<not> is_evictable (snd p)) \<and> r' = r
         | (Some v, r') \<Rightarrow>
             (\<exists>vi. map_of (frame_table r) v = Some vi \<and> is_evictable vi \<and>
                (\<forall>p \<in> set (frame_table r). is_evictable (snd p) \<longrightarrow>
                   backward_k_distance (current_timestamp r) (lru_k r) (history (snd p))
                     \<le> backward_k_distance (current_timestamp r) (lru_k r) (history vi) \<and>
                   (backward_k_distance (current_timestamp r) (lru_k r) (history (snd p)) = \<infinity> \<and>
                    backward_k_distance (current_timestamp r) (lru_k r) (history vi) = \<infinity>
                      \<longrightarrow> hd (history vi) \<le> hd (history (snd p))))) \<and>
             r' = r\<lparr>frame_table := AList.delete v (frame_table r),
                    curr_size := curr_size r - 1\<rparr> \<and> 0 < curr_size r"
proof -
  from wf have dist: "distinct (map fst (frame_table r))"
    and cs: "curr_size r = length (filter (\<lambda>p. is_evictable (snd p)) (frame_table r))"
    and k: "0 < lru_k r" and ts: "current_timestamp r < SIZE_MAX"
    and fr: "\<forall>p \<in> set (frame_table r). 0 \<le> fst p \<and> frame_info_wf r (snd p)"
    by (auto simp: replacer_wf_def)
  have init: "acc_ok r [] (-1, 0, 0)" by (simp add: acc_ok_def)
  have "\<forall>p \<in> set (frame_table r). fst p \<noteq> -1" using fr by fastforce
  from Evict_loop_ok[OF init this]
  have ok: "acc_ok r (frame_table r) (Evict_loop r (frame_table r) (-1, 0, 0))" by simp
  let ?c = "fst (Evict_loop r (frame_table r) (-1, 0, 0))"
  show ?thesis
  proof (cases "curr_size r = 0")
    case True
    then have "\<forall>p \<in> set (frame_table r). \<not> is_evictable (snd p)"
      using cs by (auto simp: filter_empty_conv)
    then show ?thesis using True by (simp add: Evict_def)
  next
    case False
    then obtain p where p: "p \<in> set (frame_table r)" "is_evictable (snd p)"
      using cs by (metis (mono_tags, lifting) filter_False list.size(3))
    with ok have c: "?c \<noteq> -1" by (auto simp: acc_ok_def)
    with ok obtain ci where ci: "(?c, ci) \<in> set (frame_table r)" "is_evictable ci"
      "\<forall>p \<in> set (frame_table r). is_evictable (snd p) \<longrightarrow> no_better r (snd p) ci"
      by (auto simp: acc_ok_def)
    have m: "map_of (frame_table r) ?c = Some ci" using dist ci(1) by simp
    have wci: "frame_info_wf r ci" using fr ci(1) by fastforce
    have best: "\<forall>p \<in> set (frame_table r). is_evictable (snd p) \<longrightarrow>
                   backward_k_distance (current_timestamp r) (lru_k r) (history (snd p))
                     \<le> backward_k_distance (current_timestamp r) (lru_k r) (history ci) \<and>
                   (backward_k_distance (current_timestamp r) (lru_k r) (history (snd p)) = \<infinity> \<and>
                    backward_k_distance (current_timestamp r) (lru_k r) (history ci) = \<infinity>
                      \<longrightarrow> hd (history ci) \<le> hd (history (snd p)))"
    proof (intro ballI impI)
      fix p assume "p \<in> set (frame_table r)" "is_evictable (snd p)"
      then have "no_better r (snd p) ci" "frame_info_wf r (snd p)" using ci(3) fr by auto
      from no_better_spec[OF this(2) wci k ts this(1)]
      show "backward_k_distance (current_timestamp r) (lru_k r) (history (snd p))
                     \<le> backward_k_distance (current_timestamp r) (lru_k r) (history ci) \<and>
                   (backward_k_distance (current_timestamp r) (lru_k r) (history (snd p)) = \<infinity> \<and>
                    backward_k_distance (current_timestamp r) (lru_k r) (history ci) = \<infinity>
                      \<longrightarrow> hd (history ci) \<le> hd (history (snd p)))" .
    qed
    have "size_t_dec (curr_size r) = curr_size r - 1"
      using False by (simp add: size_t_dec_def size_t_sub_def)
    then show ?thesis using False c m ci(2) best
      by (simp add: Evict_def Let_def)
  qed
qed

lemma E_Evict_loop_ok:
  "E_acc_ok r seen acc \<Longrightarrow> \<forall>p \<in> set xs. fst p \<noteq> -1 \<and> 0 \<le> E_distance r (snd p) \<Longrightarrow>
   E_acc_ok r (seen @ xs) (E_Evict_loop r xs acc)"
proof (induction xs arbitrary: seen acc)
  case Nil
  then show ?case by simp
next
  case (Cons x xs)
  obtain fid e where x: "x = (fid, e)" by (cases x)
  obtain v md ea where acc: "acc = (v, md, ea)" by (cases acc)
  from Cons.prems have fid: "fid \<noteq> -1" and nn: "0 \<le> E_distance r e"
    and rest: "\<forall>p \<in> set xs. fst p \<noteq> -1 \<and> 0 \<le> E_distance r (snd p)"
    by (auto simp: x)
  have step: "\<And>acc'. E_acc_ok r (seen @ [x]) acc' \<Longrightarrow> E_acc_ok r (seen @ x # xs) (E_Evict_loop r xs acc')"
    using Cons.IH[OF _ rest, of "seen @ [x]"] by simp
  let ?d = "E_distance r e"
  let ?h = "hd (entry_history e)"
  have refl: "E_no_better r e e" by (simp add: E_no_better_def)
  show ?case
  proof (cases "evictable e")
    case False
    have "E_acc_ok r (seen @ [x]) acc"
      using Cons.prems(1) False unfolding E_acc_ok_def x by auto
    from step[OF this] show ?thesis using False by (simp add: x acc)
  next
    case True
    consider (gt) "?d > md" | (tie) "\<not> ?d > md" "?d = md \<and> ?h < ea"
      | (keep) "\<not> ?d > md" "\<not> (?d = md \<and> ?h < ea)" by blast
    then show ?thesis
    proof cases
      case gt
      have "\<forall>p \<in> set seen. evictable (snd p) \<longrightarrow> E_no_better r (snd p) e"
        using Cons.prems(1) gt unfolding E_acc_ok_def acc E_no_better_def by fastforce
      then have "E_acc_ok r (seen @ [x]) (fid, ?d, ?h)"
        using True fid refl unfolding E_acc_ok_def x by auto
      from step[OF this] show ?thesis using True gt by (simp add: x acc Let_def)
    next
      case tie
      with nn have "md \<noteq> -1" by auto
      with Cons.prems(1) obtain vi where vi: "(v, vi) \<in> set seen" "evictable vi"
        "md = E_distance r vi" "ea = hd (entry_history vi)"
        "\<forall>p \<in> set seen. evictable (snd p) \<longrightarrow> E_no_better r (snd p) vi"
        unfolding E_acc_ok_def acc by auto
      have "\<forall>p \<in> set seen. evictable (snd p) \<longrightarrow> E_no_better r (snd p) e"
        using vi(5) tie vi(3,4) unfolding E_no_better_def by fastforce
      then have "E_acc_ok r (seen @ [x]) (fid, md, ?h)"
        using True fid refl tie unfolding E_acc_ok_def x by auto
      from step[OF this] show ?thesis using True tie by (simp add: x acc Let_def)
    next
      case keep
      with nn have "md \<noteq> -1" by auto
      with Cons.prems(1) obtain vi where v: "v \<noteq> -1" and vi: "(v, vi) \<in> set seen" "evictable vi"
        "md = E_distance r vi" "ea = hd (entry_history vi)"
        "\<forall>p \<in> set seen. evictable (snd p) \<longrightarrow> E_no_better r (snd p) vi"
        unfolding E_acc_ok_def acc by auto
      have "E_no_better r e vi"
        using keep vi(3,4) unfolding E_no_better_def by auto
      then have "E_acc_ok r (seen @ [x]) (v, md, ea)"
        using True v vi unfolding E_acc_ok_def x by auto
      from step[OF this] show ?thesis using True keep by (auto simp add: x acc Let_def)
    qed
  qed
qed

lemma E_distance_spec:
  assumes "entry_wf r e" "0 < e_k r" "int (e_current_timestamp r) < INT64_MAX"
  shows "length (entry_history e) < e_k r \<Longrightarrow>
           E_distance r e = INT64_MAX \<and>
           backward_k_distance (e_current_timestamp r) (e_k r) (entry_history e) = \<infinity>"
    and "\<not> length (entry_history e) < e_k r \<Longrightarrow>
           0 \<le> E_distance r e \<and> E_distance r e < INT64_MAX \<and>
           backward_k_distance (e_current_timestamp r) (e_k r) (entry_history e) =
             enat (nat (E_distance r e))"
proof -
  show "length (entry_history e) < e_k r \<Longrightarrow>
           E_distance r e = INT64_MAX \<and>
           backward_k_distance (e_current_timestamp r) (e_k r) (entry_history e) = \<infinity>"
    by (simp add: E_distance_def backward_k_distance_def)
next
  assume n: "\<not> length (entry_history e) < e_k r"
  with assms(1) have len: "length (entry_history e) = e_k r" and ne: "entry_history e \<noteq> []"
    and le: "hd (entry_history e) \<le> e_current_timestamp r"
    by (auto simp: entry_wf_def)
  have "entry_history e ! 0 = hd (entry_history e)" using ne by (simp add: hd_conv_nth)
  then show "0 \<le> E_distance r e \<and> E_distance r e < INT64_MAX \<and>
           backward_k_distance (e_current_timestamp r) (e_k r) (entry_history e) =
             enat (nat (E_distance r e))"
    using n len le assms(3)
    by (auto simp add: E_distance_def backward_k_distance_def size_t_sub_def int64_of_size_t_def INT64_MAX_def)
qed

lemma E_distance_nonneg:
  assumes "entry_wf r e" "0 < e_k r" "int (e_current_timestamp r) < INT64_MAX"
  shows "0 \<le> E_distance r e"
  using E_distance_spec[OF assms] by (cases "length (entry_history e) < e_k r") (auto simp: INT64_MAX_def)

lemma E_no_better_spec:
  assumes "entry_wf r g" "entry_wf r f" "0 < e_k r" "int (e_current_timestamp r) < INT64_MAX"
    and "E_no_better r g f"
  shows "backward_k_distance (e_current_timestamp r) (e_k r) (entry_history g)
           \<le> backward_k_distance (e_current_timestamp r) (e_k r) (entry_history f) \<and>
         (backward_k_distance (e_current_timestamp r) (e_k r) (entry_history g) = \<infinity> \<and>
          backward_k_distance (e_current_timestamp r) (e_k r) (entry_history f) = \<infinity>
            \<longrightarrow> hd (entry_history f) \<le> hd (entry_history g))"
proof -
  note g = E_distance_spec[OF assms(1,3,4)]
  note f = E_distance_spec[OF assms(2,3,4)]
  show ?thesis
  proof (cases "length (entry_history g) < e_k r"; cases "length (entry_history f) < e_k r")
    assume a: "length (entry_history g) < e_k r" "length (entry_history f) < e_k r"
    then show ?thesis using assms(5) g(1) f(1) by (auto simp: E_no_better_def)
  next
    assume a: "length (entry_history g) < e_k r" "\<not> length (entry_history f) < e_k r"
    then show ?thesis using assms(5) g(1) f(2) by (auto simp: E_no_better_def)
  next
    assume a: "\<not> length (entry_history g) < e_k r" "length (entry_history f) < e_k r"
    then show ?thesis using g(2) f(1) by auto
  next
    assume a: "\<not> length (entry_history g) < e_k r" "\<not> length (entry_history f) < e_k r"
    then show ?thesis using assms(5) g(2) f(2) by (auto simp: E_no_better_def)
  qed
qed

lemma E_Evict_spec:
  assumes wf: "replacer_E_wf r"
  shows "case E_Evict r of
           (None, r') \<Rightarrow> (\<forall>p \<in> set (entries r). \<not> evictable (snd p)) \<and> r' = r
         | (Some v, r') \<Rightarrow>
             (\<exists>vi. map_of (entries r) v = Some vi \<and> evictable vi \<and>
                (\<forall>p \<in> set (entries r). evictable (snd p) \<longrightarrow>
                   backward_k_distance (e_current_timestamp r) (e_k r) (entry_history (snd p))
                     \<le> backward_k_distance (e_current_timestamp r) (e_k r) (entry_history vi) \<and>
                   (backward_k_distance (e_current_timestamp r) (e_k r) (entry_history (snd p)) = \<infinity> \<and>
                    backward_k_distance (e_current_timestamp r) (e_k r) (entry_history vi) = \<infinity>
                      \<longrightarrow> hd (entry_history vi) \<le> hd (entry_history (snd p))))) \<and>
             r' = r\<lparr>entries := AList.delete v (entries r),
                    e_curr_size := e_curr_size r - 1\<rparr> \<and> 0 < e_curr_size r"
proof -
  from wf have dist: "distinct (map fst (entries r))"
    and cs: "e_curr_size r = length (filter (\<lambda>p. evictable (snd p)) (entries r))"
    and k: "0 < e_k r" and ts: "int (e_current_timestamp r) < INT64_MAX"
    and fr: "\<forall>p \<in> set (entries r). 0 \<le> fst p \<and> entry_wf r (snd p)"
    by (auto simp: replacer_E_wf_def)
  have init: "E_acc_ok r [] (INVALID_FRAME_ID, -1, SIZE_MAX)" by (simp add: E_acc_ok_def INVALID_FRAME_ID_def)
  have "\<forall>p \<in> set (entries r). fst p \<noteq> -1 \<and> 0 \<le> E_distance r (snd p)"
    using fr E_distance_nonneg[OF _ k ts] by fastforce
  from E_Evict_loop_ok[OF init this]
  have ok: "E_acc_ok r (entries r) (E_Evict_loop r (entries r) (INVALID_FRAME_ID, -1, SIZE_MAX))" by simp
  let ?c = "fst (E_Evict_loop r (entries r) (INVALID_FRAME_ID, -1, SIZE_MAX))"
  show ?thesis
  proof (cases "e_curr_size r = 0")
    case True
    then have "\<forall>p \<in> set (entries r). \<not> evictable (snd p)"
      using cs by (auto simp: filter_empty_conv)
    then show ?thesis using True by (simp add: E_Evict_def)
  next
    case False
    then obtain p where p: "p \<in> set (entries r)" "evictable (snd p)"
      using cs by (metis (mono_tags, lifting) filter_False list.size(3))
    with ok have c: "?c \<noteq> -1" by (auto simp: E_acc_ok_def)
    with ok obtain ci where ci: "(?c, ci) \<in> set (entries r)" "evictable ci"
      "\<forall>p \<in> set (entries r). evictable (snd p) \<longrightarrow> E_no_better r (snd p) ci"
      by (auto simp: E_acc_ok_def)
    have m: "map_of (entries r) ?c = Some ci" using dist ci(1) by simp
    have wci: "entry_wf r ci" using fr ci(1) by fastforce
    have best: "\<forall>p \<in> set (entries r). evictable (snd p) \<longrightarrow>
                   backward_k_distance (e_current_timestamp r) (e_k r) (entry_history (snd p))
                     \<le> backward_k_distance (e_current_timestamp r) (e_k r) (entry_history ci) \<and>
                   (backward_k_distance (e_current_timestamp r) (e_k r) (entry_history (snd p)) = \<infinity> \<and>
                    backward_k_distance (e_current_timestamp r) (e_k r) (entry_history ci) = \<infinity>
                      \<longrightarrow> hd (entry_history ci) \<le> hd (entry_history (snd p)))"
    proof (intro ballI impI)
      fix p assume "p \<in> set (entries r)" "evictable (snd p)"
      then have "E_no_better r (snd p) ci" "entry_wf r (snd p)" using ci(3) fr by auto
      from E_no_better_spec[OF this(2) wci k ts this(1)]
      show "backward_k_distance (e_current_timestamp r) (e_k r) (entry_history (snd p))
                     \<le> backward_k_distance (e_current_timestamp r) (e_k r) (entry_history ci) \<and>
                   (backward_k_distance (e_current_timestamp r) (e_k r) (entry_history (snd p)) = \<infinity> \<and>
                    backward_k_distance (e_current_timestamp r) (e_k r) (entry_history ci) = \<infinity>
                      \<longrightarrow> hd (entry_history ci) \<le> hd (entry_history (snd p)))" .
    qed
    have "size_t_dec (e_curr_size r) = e_curr_size r - 1"
      using False by (simp add: size_t_dec_def size_t_sub_def)
    then show ?thesis using False c m ci(2) best
      by (simp add: E_Evict_def Let_def INVALID_FRAME_ID_def)
  qed
qed

lemma replacer_example_wf: "replacer_wf replacer_example"
  by (simp add: replacer_wf_def replacer_example_def frame_info_wf_def SIZE_MAX_def)

lemma replacer_E_example_wf: "replacer_E_wf replacer_E_example"
  by (simp add: replacer_E_wf_def replacer_E_example_def entry_wf_def INT64_MAX_def)

lemma Evict_example: "fst (Evict replacer_example) = Some 2"
  by (simp add: Evict_def replacer_example_def CalculateBackwardKDistance_def SIZE_MAX_def size_t_sub_def)

lemma E_Evict_example: "fst (E_Evict replacer_E_example) = Some 2"
  by (simp add: E_Evict_def replacer_E_example_def E_distance_def SIZE_MAX_def size_t_sub_def INT64_MAX_def INVALID_FRAME_ID_def int64_of_size_t_def)

text \<open>
  In every replacer state that satisfies the invariant (both versions of the replacer):
  \<open>Evict\<close> returns false exactly when no tracked frame is evictable, and then changes
  nothing; otherwise the victim is a tracked evictable frame whose backward K-distance
  (\<open>now - t\<^sub>K\<close>, or \<open>\<infinity>\<close> with fewer than \<open>K\<close> recorded accesses) is largest among the evictable
  frames, and, when that distance is \<open>\<infinity>\<close>, whose first timestamp in history is earliest
  among the evictable frames at \<open>\<infinity>\<close>; the victim is erased from the frame table and
  \<open>curr_size\<close> is decremented. The invariant asks, among other things, that no negative
  frame id is tracked.
\<close>

theorem Evict_largest_backward_k_distance:
  "(replacer_wf r \<longrightarrow>
      (fst (Evict r) = None \<longleftrightarrow> (\<forall>p \<in> set (frame_table r). \<not> is_evictable (snd p))) \<and>
      (case Evict r of
         (None, r') \<Rightarrow> r' = r
       | (Some v, r') \<Rightarrow>
           (\<exists>vi. map_of (frame_table r) v = Some vi \<and> is_evictable vi \<and>
              (\<forall>p \<in> set (frame_table r). is_evictable (snd p) \<longrightarrow>
                 bkd r (snd p) \<le> bkd r vi \<and>
                 (bkd r (snd p) = \<infinity> \<and> bkd r vi = \<infinity>
                    \<longrightarrow> hd (history vi) \<le> hd (history (snd p))))) \<and>
           r' = r\<lparr>frame_table := AList.delete v (frame_table r),
                  curr_size := curr_size r - 1\<rparr> \<and> 0 < curr_size r)) \<and>
   (replacer_E_wf e \<longrightarrow>
      (fst (E_Evict e) = None \<longleftrightarrow> (\<forall>p \<in> set (entries e). \<not> evictable (snd p))) \<and>
      (case E_Evict e of
         (None, e') \<Rightarrow> e' = e
       | (Some v, e') \<Rightarrow>
           (\<exists>vi. map_of (entries e) v = Some vi \<and> evictable vi \<and>
              (\<forall>p \<in> set (entries e). evictable (snd p) \<longrightarrow>
                 E_bkd e (snd p) \<le> E_bkd e vi \<and>
                 (E_bkd e (snd p) = \<infinity> \<and> E_bkd e vi = \<infinity>
                    \<longrightarrow> hd (entry_history vi) \<le> hd (entry_history (snd p))))) \<and>
           e' = e\<lparr>entries := AList.delete v (entries e),
                  e_curr_size := e_curr_size e - 1\<rparr> \<and> 0 < e_curr_size e))"
proof (intro conjI impI)
  assume wf: "replacer_wf r"
  from wf have dist: "distinct (map fst (frame_table r))" by (simp add: replacer_wf_def)
  note s = Evict_spec[OF wf, folded bkd_def]
  show "fst (Evict r) = None \<longleftrightarrow> (\<forall>p \<in> set (frame_table r). \<not> is_evictable (snd p))"
  proof (cases "Evict r")
    case (Pair a r')
    show ?thesis
    proof (cases a)
      case None
      then show ?thesis using s Pair by simp
    next
      case (Some v)
      with s Pair obtain vi where "map_of (frame_table r) v = Some vi" "is_evictable vi" by auto
      then have "(v, vi) \<in> set (frame_table r)" by (simp add: map_of_SomeD)
      then show ?thesis using Some Pair \<open>is_evictable vi\<close> by force
    qed
  qed
  show "case Evict r of
         (None, r') \<Rightarrow> r' = r
       | (Some v, r') \<Rightarrow>
           (\<exists>vi. map_of (frame_table r) v = Some vi \<and> is_evictable vi \<and>
              (\<forall>p \<in> set (frame_table r). is_evictable (snd p) \<longrightarrow>
                 bkd r (snd p) \<le> bkd r vi \<and>
                 (bkd r (snd p) = \<infinity> \<and> bkd r vi = \<infinity>
                    \<longrightarrow> hd (history vi) \<le> hd (history (snd p))))) \<and>
           r' = r\<lparr>frame_table := AList.delete v (frame_table r),
                  curr_size := curr_size r - 1\<rparr> \<and> 0 < curr_size r"
    using s by (auto split: prod.splits option.splits)
next
  assume wf: "replacer_E_wf e"
  note s = E_Evict_spec[OF wf, folded E_bkd_def]
  show "fst (E_Evict e) = None \<longleftrightarrow> (\<forall>p \<in> set (entries e). \<not> evictable (snd p))"
  proof (cases "E_Evict e")
    case (Pair a r')
    show ?thesis
    proof (cases a)
      case None
      then show ?thesis using s Pair by simp
    next
      case (Some v)
      with s Pair obtain vi where "map_of (entries e) v = Some vi" "evictable vi" by auto
      then have "(v, vi) \<in> set (entries e)" by (simp add: map_of_SomeD)
      then show ?thesis using Some Pair \<open>evictable vi\<close> by force
    qed
  qed
  show "case E_Evict e of
         (None, e') \<Rightarrow> e' = e
       | (Some v, e') \<Rightarrow>
           (\<exists>vi. map_of (entries e) v = Some vi \<and> evictable vi \<and>
              (\<forall>p \<in> set (entries e). evictable (snd p) \<longrightarrow>
                 E_bkd e (snd p) \<le> E_bkd e vi \<and>
                 (E_bkd e (snd p) = \<infinity> \<and> E_bkd e vi = \<infinity>
                    \<longrightarrow> hd (entry_history vi) \<le> hd (entry_history (snd p))))) \<and>
           e' = e\<lparr>entries := AList.delete v (entries e),
                  e_curr_size := e_curr_size e - 1\<rparr> \<and> 0 < e_curr_size e"
    using s by (auto split: prod.splits option.splits)
qed

theorem Evict_largest_backward_k_distance_witness:
  "replacer_wf replacer_example \<and> replacer_E_wf replacer_E_example \<and>
   fst (Evict replacer_example) = Some 2 \<and>
   frame_table (snd (Evict replacer_example)) = AList.delete 2 (frame_table replacer_example) \<and>
   curr_size (snd (Evict replacer_example)) = 2 \<and>
   fst (E_Evict replacer_E_example) = Some 2 \<and>
   entries (snd (E_Evict replacer_E_example)) = AList.delete 2 (entries replacer_E_example) \<and>
   e_curr_size (snd (E_Evict replacer_E_example)) = 2"
proof -
  have c: "curr_size replacer_example = 3" "e_curr_size replacer_E_example = 3"
    by (simp_all add: replacer_example_def replacer_E_example_def)
  show ?thesis
    using Evict_largest_backward_k_distance[of replacer_example replacer_E_example]
      replacer_example_wf replacer_E_example_wf Evict_example E_Evict_example c
    by (auto split: prod.splits option.splits)
qed

text \<open>
  Claim C1 asks of every replacer state with an evictable frame that \<open>Evict\<close> succeeds, and
  that \<open>Evict\<close> returns false only when no frame is evictable. The replacer with \<open>entries\<close>
  records an access of frame id \<open>-1\<close> (its assertion compares signed values) and uses
  \<open>-1\<close> as the value of \<open>victim\<close> that stands for no victim found: on a replacer of 7
  frames with \<open>K = 2\<close>, after \<open>RecordAccess(-1)\<close> and \<open>SetEvictable(-1, true)\<close> the size is 1,
  frame \<open>-1\<close> is evictable, and \<open>Evict\<close> returns false and changes nothing.
\<close>

theorem E_Evict_false_with_evictable_frame:
  "E_RecordAccess (LRUKReplacer_E_init 7 2) (-1) =
     Inr \<lparr>entries = [(-1, \<lparr>entry_history = [1], evictable = False\<rparr>)],
          e_current_timestamp = 1, e_curr_size = 0, e_replacer_size = 7, e_k = 2\<rparr> \<and>
   E_SetEvictable
     \<lparr>entries = [(-1, \<lparr>entry_history = [1], evictable = False\<rparr>)],
      e_current_timestamp = 1, e_curr_size = 0, e_replacer_size = 7, e_k = 2\<rparr> (-1) True =
     Inr \<lparr>entries = [(-1, \<lparr>entry_history = [1], evictable = True\<rparr>)],
          e_current_timestamp = 1, e_curr_size = 1, e_replacer_size = 7, e_k = 2\<rparr> \<and>
   E_Size \<lparr>entries = [(-1, \<lparr>entry_history = [1], evictable = True\<rparr>)],
          e_current_timestamp = 1, e_curr_size = 1, e_replacer_size = 7, e_k = 2\<rparr> = 1 \<and>
   E_Evict
     \<lparr>entries = [(-1, \<lparr>entry_history = [1], evictable = True\<rparr>)],
      e_current_timestamp = 1, e_curr_size = 1, e_replacer_size = 7, e_k = 2\<rparr> =
     (None,
      \<lparr>entries = [(-1, \<lparr>entry_history = [1], evictable = True\<rparr>)],
       e_current_timestamp = 1, e_curr_size = 1, e_replacer_size = 7, e_k = 2\<rparr>)"
  by (simp add: E_RecordAccess_def E_SetEvictable_def E_Evict_def E_Size_def
      LRUKReplacer_E_init_def E_frame_id_ok_def int32_of_size_t_def size_t_inc_def
      E_distance_def INT64_MAX_def INVALID_FRAME_ID_def SIZE_MAX_def)

section \<open>Frame id validation\<close>

lemma size_t_of_int_le: "0 \<le> f \<Longrightarrow> size_t_of_int f \<le> nat f"
  by (simp add: size_t_of_int_def nat_le_iff zmod_le_nonneg_dividend)

lemma RecordAccess_accepts_replacer_size:
  "replacer_size r < 2 ^ 64 \<Longrightarrow> \<exists>r'. RecordAccess r (int (replacer_size r)) = Inr r'"
  by (simp add: RecordAccess_def size_t_of_int_def Let_def nat_mod_distrib)

lemma SetEvictable_accepts_replacer_size:
  "replacer_size r < 2 ^ 64 \<Longrightarrow> \<exists>r'. SetEvictable r (int (replacer_size r)) b = Inr r'"
  by (auto simp add: SetEvictable_def size_t_of_int_def Let_def nat_mod_distrib split: option.splits)

lemma Remove_no_range_check:
  "map_of (frame_table r) f = None \<Longrightarrow> Remove r f = Inr r"
  by (simp add: Remove_def)

lemma RecordAccess_rejects_above_replacer_size:
  "int (replacer_size r) < f \<Longrightarrow> f < 2 ^ 64 \<Longrightarrow> RecordAccess r f = Inl (Exception ''frame_id is invalid'')"
proof -
  assume a: "int (replacer_size r) < f" "f < 2 ^ 64"
  then have "f mod 2 ^ 64 = f" by simp
  moreover have "replacer_size r < nat f" using a by linarith
  ultimately show ?thesis by (simp add: RecordAccess_def size_t_of_int_def)
qed

lemma int32_of_size_t_small: "x < 2 ^ 31 \<Longrightarrow> int32_of_size_t x = int x"
  by (simp add: int32_of_size_t_def)

lemma E_RecordAccess_rejects_from_replacer_size:
  "e_replacer_size e < 2 ^ 31 \<Longrightarrow> int (e_replacer_size e) \<le> f \<Longrightarrow>
     E_RecordAccess e f = Inl (AssertionFailed ''Invalid frame id'')"
  by (simp add: E_RecordAccess_def E_frame_id_ok_def int32_of_size_t_small)

lemma E_RecordAccess_accepts_negative:
  "e_replacer_size e < 2 ^ 31 \<Longrightarrow> f < 0 \<Longrightarrow> \<exists>e'. E_RecordAccess e f = Inr e'"
  by (auto simp add: E_RecordAccess_def E_frame_id_ok_def int32_of_size_t_small Let_def
      split: option.splits)

text \<open>
  Claim C9 asks, for every replacer and every in-range frame id that is not tracked, that
  \<open>SetEvictable\<close> returns without a fault and leaves the state unchanged. The replacer with
  \<open>entries\<close> asserts \<^verbatim>\<open>frame_id < static_cast<frame_id_t>(replacer_size_)\<close>: frame ids are
  32-bit, and a size from \<open>2 ^ 31\<close> on does not survive the cast. On a replacer made for
  \<open>2 ^ 31\<close> frames the cast gives \<open>- 2 ^ 31\<close>, and \<open>SetEvictable\<close> of the untracked frame 5 fails
  the assertion.
\<close>

theorem E_SetEvictable_faults_on_replacer_of_2_31_frames:
  "0 \<le> (5::int) \<and> 5 < int (e_replacer_size (LRUKReplacer_E_init (2 ^ 31) 2)) \<and>
   map_of (entries (LRUKReplacer_E_init (2 ^ 31) 2)) 5 = None \<and>
   E_SetEvictable (LRUKReplacer_E_init (2 ^ 31) 2) 5 True =
     Inl (AssertionFailed ''Invalid frame id'') \<and>
   E_SetEvictable (LRUKReplacer_E_init (2 ^ 31) 2) 5 False =
     Inl (AssertionFailed ''Invalid frame id'')"
  by (simp add: E_SetEvictable_def LRUKReplacer_E_init_def E_frame_id_ok_def
      int32_of_size_t_def)

text \<open>
  Claim C9, amended. For an in-range frame id \<open>0 \<le> f < replacer_size\<close> that is not tracked,
  \<open>SetEvictable\<close> returns without a fault and the replacer state (frame table with its
  histories and flags, clock, \<open>curr_size\<close> and hence \<open>Size\<close>) is the state it was called
  with, for either value of the flag: in the replacer with \<open>frame_table\<close> always, in the
  replacer with \<open>entries\<close> when it was made for fewer than \<open>2 ^ 31\<close> frames, the sizes that
  the type of frame ids can number.
\<close>

theorem SetEvictable_untracked_frame_unchanged:
  "(0 \<le> f \<and> f < int (replacer_size r) \<and> map_of (frame_table r) f = None
      \<longrightarrow> SetEvictable r f b = Inr r \<and> Size r = curr_size r) \<and>
   (0 \<le> f \<and> f < int (e_replacer_size e) \<and> e_replacer_size e < 2 ^ 31 \<and>
    map_of (entries e) f = None
      \<longrightarrow> E_SetEvictable e f b = Inr e \<and> E_Size e = e_curr_size e)"
proof (intro conjI impI)
  assume a: "0 \<le> f \<and> f < int (replacer_size r) \<and> map_of (frame_table r) f = None"
  then have "size_t_of_int f \<le> replacer_size r"
    using size_t_of_int_le[of f] by linarith
  then show "SetEvictable r f b = Inr r" using a by (simp add: SetEvictable_def)
  show "Size r = curr_size r" by (simp add: Size_def)
next
  assume a: "0 \<le> f \<and> f < int (e_replacer_size e) \<and> e_replacer_size e < 2 ^ 31 \<and>
    map_of (entries e) f = None"
  then show "E_SetEvictable e f b = Inr e"
    by (simp add: E_SetEvictable_def E_frame_id_ok_def int32_of_size_t_small)
  show "E_Size e = e_curr_size e" by (simp add: E_Size_def)
qed

theorem SetEvictable_untracked_frame_unchanged_witness:
  "SetEvictable replacer_example 5 True = Inr replacer_example \<and>
   SetEvictable replacer_example 5 False = Inr replacer_example \<and>
   E_SetEvictable replacer_E_example 5 True = Inr replacer_E_example \<and>
   E_SetEvictable replacer_E_example 5 False = Inr replacer_E_example"
  using SetEvictable_untracked_frame_unchanged[where f = 5 and r = replacer_example
      and e = replacer_E_example and b = True]
    SetEvictable_untracked_frame_unchanged[where f = 5 and r = replacer_example
      and e = replacer_E_example and b = False]
  by (simp add: replacer_example_def replacer_E_example_def)

text \<open>
  Claim C8 asks that \<open>RecordAccess\<close>, \<open>SetEvictable\<close> and \<open>Remove\<close> fault on every frame id
  outside \<open>0 \<le> f < replacer_size\<close>, and in particular on \<open>f = replacer_size\<close>. The
  replacer with \<open>frame_table\<close> compares with \<^verbatim>\<open>>\<close>: on a replacer of size 7, frame id 7
  is recorded, marked evictable and removed without a fault, and its \<open>Remove\<close> checks no
  range at all. The replacer with \<open>entries\<close> rejects 7 but, comparing signed values,
  accepts a negative frame id.
\<close>

theorem frame_id_equal_replacer_size_not_rejected:
  "RecordAccess (LRUKReplacer_init 7 2) 7 =
     Inr \<lparr>frame_table = [(7, \<lparr>history = [1], is_evictable = False, earliest_timestamp = 1\<rparr>)],
          current_timestamp = 1, curr_size = 0, replacer_size = 7, lru_k = 2\<rparr> \<and>
   SetEvictable
     \<lparr>frame_table = [(7, \<lparr>history = [1], is_evictable = False, earliest_timestamp = 1\<rparr>)],
      current_timestamp = 1, curr_size = 0, replacer_size = 7, lru_k = 2\<rparr> 7 True =
     Inr \<lparr>frame_table = [(7, \<lparr>history = [1], is_evictable = True, earliest_timestamp = 1\<rparr>)],
          current_timestamp = 1, curr_size = 1, replacer_size = 7, lru_k = 2\<rparr> \<and>
   Remove
     \<lparr>frame_table = [(7, \<lparr>history = [1], is_evictable = True, earliest_timestamp = 1\<rparr>)],
      current_timestamp = 1, curr_size = 1, replacer_size = 7, lru_k = 2\<rparr> 7 =
     Inr \<lparr>frame_table = [], current_timestamp = 1, curr_size = 0, replacer_size = 7,
          lru_k = 2\<rparr> \<and>
   Remove (LRUKReplacer_init 7 2) 100 = Inr (LRUKReplacer_init 7 2) \<and>
   Remove (LRUKReplacer_init 7 2) (-3) = Inr (LRUKReplacer_init 7 2) \<and>
   E_RecordAccess (LRUKReplacer_E_init 7 2) (-1) =
     Inr \<lparr>entries = [(-1, \<lparr>entry_history = [1], evictable = False\<rparr>)],
          e_current_timestamp = 1, e_curr_size = 0, e_replacer_size = 7, e_k = 2\<rparr>"
  by (simp add: RecordAccess_def SetEvictable_def Remove_def LRUKReplacer_init_def
      size_t_of_int_def size_t_inc_def size_t_dec_def size_t_sub_def FrameInfo_default_def
      E_RecordAccess_def LRUKReplacer_E_init_def E_frame_id_ok_def int32_of_size_t_def)

section \<open>The replacer's state invariant is kept\<close>

text \<open>
  The invariants \<open>replacer_wf\<close> and \<open>replacer_E_wf\<close> hold of a new replacer with \<open>0 < K\<close> and are
  kept by every operation that returns, when \<open>RecordAccess\<close> is called with a frame id
  \<open>0 \<le> f\<close> and the counters do not wrap (the clock stays below the value that stands
  for \<open>+\<infinity>\<close>, and \<open>curr_size\<close> below \<open>SIZE_MAX\<close>).
\<close>

lemma replacer_wf_init: "0 < k \<Longrightarrow> replacer_wf (LRUKReplacer_init n k)"
  by (simp add: replacer_wf_def LRUKReplacer_init_def SIZE_MAX_def)

lemma count_update_new:
  "map_of al k = None \<Longrightarrow>
     length (filter (\<lambda>p. P (snd p)) (AList.update k v al)) =
     length (filter (\<lambda>p. P (snd p)) al) + (if P v then 1 else 0)"
  by (induction al) (auto split: if_splits)

lemma count_update_tracked:
  "distinct (map fst al) \<Longrightarrow> map_of al k = Some w \<Longrightarrow>
     length (filter (\<lambda>p. P (snd p)) (AList.update k v al)) + (if P w then 1 else 0) =
     length (filter (\<lambda>p. P (snd p)) al) + (if P v then 1 else 0)"
proof (induction al)
  case Nil
  then show ?case by simp
next
  case (Cons a al)
  obtain k' w' where a: "a = (k', w')" by (cases a)
  show ?case
  proof (cases "k' = k")
    case True
    then show ?thesis using Cons.prems a by simp
  next
    case False
    then show ?thesis using Cons a by simp
  qed
qed

lemma count_delete_tracked:
  "distinct (map fst al) \<Longrightarrow> map_of al k = Some w \<Longrightarrow>
     length (filter (\<lambda>p. P (snd p)) (AList.delete k al)) + (if P w then 1 else 0) =
     length (filter (\<lambda>p. P (snd p)) al)"
proof (induction al)
  case Nil
  then show ?case by simp
next
  case (Cons a al)
  obtain k' w' where a: "a = (k', w')" by (cases a)
  show ?case
  proof (cases "k' = k")
    case True
    with Cons.prems a have "k \<notin> fst ` set al" by simp
    then have "AList.delete k al = al" by (rule delete_id)
    then show ?thesis using True Cons.prems a by simp
  next
    case False
    then show ?thesis using Cons a by simp
  qed
qed

lemma set_update_cases:
  "p \<in> set (AList.update k v al) \<Longrightarrow> p = (k, v) \<or> p \<in> set al"
  by (induction al) (auto split: if_splits)

lemma set_delete_subset: "p \<in> set (AList.delete k al) \<Longrightarrow> p \<in> set al"
  by (induction al) (auto split: if_splits)


lemma frame_info_wf_mono:
  "frame_info_wf r fi \<Longrightarrow> current_timestamp r \<le> current_timestamp r' \<Longrightarrow> lru_k r' = lru_k r
     \<Longrightarrow> frame_info_wf r' fi"
  by (auto simp add: frame_info_wf_def)

lemma RecordAccess_replacer_wf:
  assumes wf: "replacer_wf r" and f: "0 \<le> f"
    and clock: "Suc (current_timestamp r) < SIZE_MAX"
    and ra: "RecordAccess r f = Inr r'"
  shows "replacer_wf r'"
proof -
  let ?ts = "Suc (current_timestamp r)"
  let ?fi = "case map_of (frame_table r) f of None \<Rightarrow> FrameInfo_default | Some fi \<Rightarrow> fi"
  let ?h1 = "history ?fi @ [?ts]"
  let ?h2 = "if length ?h1 > lru_k r then tl ?h1 else ?h1"
  let ?e = "if length ?h2 = 1 then ?ts else earliest_timestamp ?fi"
  let ?v = "?fi\<lparr>history := ?h2, earliest_timestamp := ?e\<rparr>"
  from wf have dist: "distinct (map fst (frame_table r))"
    and cs: "curr_size r = length (filter (\<lambda>p. is_evictable (snd p)) (frame_table r))"
    and k: "0 < lru_k r"
    and fr: "\<And>p. p \<in> set (frame_table r) \<Longrightarrow> 0 \<le> fst p \<and> frame_info_wf r (snd p)"
    by (auto simp: replacer_wf_def)
  have ts: "size_t_inc (current_timestamp r) = ?ts"
    using clock by (simp add: size_t_inc_def SIZE_MAX_def)
  from ra have r': "r' = r\<lparr>current_timestamp := ?ts,
                           frame_table := AList.update f ?v (frame_table r)\<rparr>"
    by (simp add: RecordAccess_def Let_def ts split: if_splits)
  have old: "history ?fi = [] \<or> frame_info_wf r ?fi"
  proof (cases "map_of (frame_table r) f")
    case None
    then show ?thesis by (simp add: FrameInfo_default_def)
  next
    case (Some fi)
    then have "(f, fi) \<in> set (frame_table r)" by (rule map_of_SomeD)
    from fr[OF this] Some show ?thesis by simp
  qed
  have len: "length (history ?fi) \<le> lru_k r"
    using old by (auto simp add: frame_info_wf_def)
  have past: "\<forall>t \<in> set (history ?fi). t \<le> current_timestamp r"
    using old by (auto simp add: frame_info_wf_def)
  have v_wf: "frame_info_wf r' ?v"
  proof -
    have ne: "?h2 \<noteq> []"
      using k by (cases "history ?fi") auto
    have le: "length ?h2 \<le> lru_k r" using len by auto
    have pa: "\<forall>t \<in> set ?h2. t \<le> ?ts"
    proof
      fix t assume "t \<in> set ?h2"
      then have "t \<in> set ?h1" by (auto split: if_splits dest: list.set_sel(2)[rotated])
      then show "t \<le> ?ts" using past by auto
    qed
    have ea: "length ?h2 < lru_k r \<longrightarrow> ?e = hd ?h2"
    proof
      assume lt: "length ?h2 < lru_k r"
      then have h2: "?h2 = ?h1" by (auto split: if_splits)
      show "?e = hd ?h2"
      proof (cases "history ?fi")
        case Nil
        then show ?thesis using k by simp
      next
        case (Cons a as)
        with old have w: "frame_info_wf r ?fi" by auto
        from lt h2 have "length (history ?fi) < lru_k r" by simp
        with w have "earliest_timestamp ?fi = hd (history ?fi)"
          by (simp add: frame_info_wf_def)
        then show ?thesis using Cons h2 by simp
      qed
    qed
    show ?thesis
      unfolding frame_info_wf_def using ne le pa ea by (simp add: r')
  qed
  have ev: "is_evictable ?v = is_evictable ?fi" by simp
  have count: "length (filter (\<lambda>p. is_evictable (snd p)) (AList.update f ?v (frame_table r))) =
      length (filter (\<lambda>p. is_evictable (snd p)) (frame_table r))"
  proof (cases "map_of (frame_table r) f")
    case None
    from count_update_new[OF None, of is_evictable ?v] None show ?thesis
      by (simp add: FrameInfo_default_def)
  next
    case (Some fi)
    from count_update_tracked[OF dist Some, of is_evictable ?v] Some show ?thesis
      by simp
  qed
  have all: "0 \<le> fst p \<and> frame_info_wf r' (snd p)"
    if "p \<in> set (AList.update f ?v (frame_table r))" for p
  proof -
    from set_update_cases[OF that] show ?thesis
    proof
      assume "p = (f, ?v)"
      then show ?thesis using f v_wf by simp
    next
      assume "p \<in> set (frame_table r)"
      from fr[OF this] show ?thesis
        using frame_info_wf_mono[of r "snd p" r'] by (simp add: r')
    qed
  qed
  show ?thesis
    unfolding replacer_wf_def
    using dist cs k clock count all by (simp add: r' distinct_update)
qed


lemma replacer_wf_flag:
  assumes wf: "replacer_wf r" and m: "map_of (frame_table r) f = Some fi"
    and c: "c + (if is_evictable fi then 1 else 0) = curr_size r + (if b then 1 else 0)"
  shows "replacer_wf (r\<lparr>frame_table := AList.update f (fi\<lparr>is_evictable := b\<rparr>) (frame_table r),
                        curr_size := c\<rparr>)"
proof -
  from wf have dist: "distinct (map fst (frame_table r))"
    and cs: "curr_size r = length (filter (\<lambda>p. is_evictable (snd p)) (frame_table r))"
    and k: "0 < lru_k r" and clock: "current_timestamp r < SIZE_MAX"
    and fr: "\<And>p. p \<in> set (frame_table r) \<Longrightarrow> 0 \<le> fst p \<and> frame_info_wf r (snd p)"
    by (auto simp: replacer_wf_def)
  let ?v = "fi\<lparr>is_evictable := b\<rparr>"
  let ?r = "r\<lparr>frame_table := AList.update f ?v (frame_table r), curr_size := c\<rparr>"
  have mem: "(f, fi) \<in> set (frame_table r)" using m by (rule map_of_SomeD)
  from count_update_tracked[OF dist m, of is_evictable ?v] c cs
  have count: "c = length (filter (\<lambda>p. is_evictable (snd p)) (AList.update f ?v (frame_table r)))"
    by (simp split: if_splits)
  have all: "0 \<le> fst p \<and> frame_info_wf ?r (snd p)"
    if "p \<in> set (AList.update f ?v (frame_table r))" for p
  proof -
    from set_update_cases[OF that] show ?thesis
    proof
      assume "p = (f, ?v)"
      then show ?thesis using fr[OF mem] by (simp add: frame_info_wf_def)
    next
      assume "p \<in> set (frame_table r)"
      from fr[OF this] show ?thesis by (simp add: frame_info_wf_def)
    qed
  qed
  show ?thesis
    unfolding replacer_wf_def using dist k clock count all by (simp add: distinct_update)
qed

lemma SetEvictable_replacer_wf:
  assumes wf: "replacer_wf r" and room: "curr_size r < SIZE_MAX"
    and se: "SetEvictable r f b = Inr r'"
  shows "replacer_wf r'"
proof (cases "map_of (frame_table r) f")
  case None
  with se have "r' = r" by (simp add: SetEvictable_def split: if_splits)
  with wf show ?thesis by simp
next
  case (Some fi)
  show ?thesis
  proof (cases "is_evictable fi = b")
    case True
    with se Some have "r' = r" by (simp add: SetEvictable_def split: if_splits)
    with wf show ?thesis by simp
  next
    case False
    from wf have cs: "curr_size r = length (filter (\<lambda>p. is_evictable (snd p)) (frame_table r))"
      by (simp add: replacer_wf_def)
    have pos: "is_evictable fi \<Longrightarrow> 0 < curr_size r"
    proof -
      assume "is_evictable fi"
      moreover have "(f, fi) \<in> set (frame_table r)" using Some by (rule map_of_SomeD)
      ultimately have "filter (\<lambda>p. is_evictable (snd p)) (frame_table r) \<noteq> []"
        unfolding filter_empty_conv by force
      then show ?thesis using cs by simp
    qed
    let ?c = "if b then size_t_inc (curr_size r) else size_t_dec (curr_size r)"
    from se Some False
    have r': "r' = r\<lparr>frame_table := AList.update f (fi\<lparr>is_evictable := b\<rparr>) (frame_table r),
                      curr_size := ?c\<rparr>"
      by (simp add: SetEvictable_def split: if_splits)
    have "?c + (if is_evictable fi then 1 else 0) = curr_size r + (if b then 1 else 0)"
      using False room pos
      by (cases b) (auto simp add: size_t_inc_def size_t_dec_def size_t_sub_def SIZE_MAX_def)
    from replacer_wf_flag[OF wf Some this] show ?thesis unfolding r' .
  qed
qed

lemma replacer_wf_delete:
  assumes wf: "replacer_wf r" and m: "map_of (frame_table r) f = Some fi"
    and ev: "is_evictable fi"
  shows "replacer_wf (r\<lparr>frame_table := AList.delete f (frame_table r),
                        curr_size := curr_size r - 1\<rparr>)"
proof -
  from wf have dist: "distinct (map fst (frame_table r))"
    and cs: "curr_size r = length (filter (\<lambda>p. is_evictable (snd p)) (frame_table r))"
    and k: "0 < lru_k r" and clock: "current_timestamp r < SIZE_MAX"
    and fr: "\<And>p. p \<in> set (frame_table r) \<Longrightarrow> 0 \<le> fst p \<and> frame_info_wf r (snd p)"
    by (auto simp: replacer_wf_def)
  from count_delete_tracked[OF dist m, of is_evictable] ev cs
  have count: "curr_size r - 1 =
      length (filter (\<lambda>p. is_evictable (snd p)) (AList.delete f (frame_table r)))"
    by simp
  have all: "0 \<le> fst p \<and> frame_info_wf r (snd p)"
    if "p \<in> set (AList.delete f (frame_table r))" for p
    using fr[OF set_delete_subset[OF that]] .
  show ?thesis
    unfolding replacer_wf_def using dist k clock count all
    by (simp add: distinct_delete frame_info_wf_def)
qed

lemma Remove_replacer_wf:
  assumes wf: "replacer_wf r" and rm: "Remove r f = Inr r'"
  shows "replacer_wf r'"
proof (cases "map_of (frame_table r) f")
  case None
  with rm have "r' = r" by (simp add: Remove_def)
  with wf show ?thesis by simp
next
  case (Some fi)
  with rm have ev: "is_evictable fi" by (simp add: Remove_def split: if_splits)
  from wf have cs: "curr_size r = length (filter (\<lambda>p. is_evictable (snd p)) (frame_table r))"
    by (simp add: replacer_wf_def)
  have "(f, fi) \<in> set (frame_table r)" using Some by (rule map_of_SomeD)
  with ev have "filter (\<lambda>p. is_evictable (snd p)) (frame_table r) \<noteq> []"
    unfolding filter_empty_conv by force
  with cs have "0 < curr_size r" by simp
  then have "size_t_dec (curr_size r) = curr_size r - 1"
    by (simp add: size_t_dec_def size_t_sub_def)
  with rm Some ev have "r' = r\<lparr>frame_table := AList.delete f (frame_table r),
                                 curr_size := curr_size r - 1\<rparr>"
    by (simp add: Remove_def)
  with replacer_wf_delete[OF wf Some ev] show ?thesis by simp
qed

lemma Evict_replacer_wf:
  assumes wf: "replacer_wf r"
  shows "replacer_wf (snd (Evict r))"
proof (cases "Evict r")
  case (Pair v r')
  show ?thesis
  proof (cases v)
    case None
    with Evict_spec[OF wf] Pair wf show ?thesis by simp
  next
    case (Some f)
    with Evict_spec[OF wf] Pair obtain vi where
      "map_of (frame_table r) f = Some vi" "is_evictable vi"
      "r' = r\<lparr>frame_table := AList.delete f (frame_table r), curr_size := curr_size r - 1\<rparr>"
      by auto
    with replacer_wf_delete[OF wf this(1,2)] Pair show ?thesis by simp
  qed
qed


lemma replacer_E_wf_init: "0 < k \<Longrightarrow> replacer_E_wf (LRUKReplacer_E_init n k)"
  by (simp add: replacer_E_wf_def LRUKReplacer_E_init_def INT64_MAX_def)

lemma entry_wf_mono:
  "entry_wf r en \<Longrightarrow> e_current_timestamp r \<le> e_current_timestamp r' \<Longrightarrow> e_k r' = e_k r
     \<Longrightarrow> entry_wf r' en"
  by (auto simp add: entry_wf_def)

lemma E_RecordAccess_replacer_E_wf:
  assumes wf: "replacer_E_wf r" and f: "0 \<le> f"
    and clock: "int (Suc (e_current_timestamp r)) < INT64_MAX"
    and ra: "E_RecordAccess r f = Inr r'"
  shows "replacer_E_wf r'"
proof -
  let ?ts = "Suc (e_current_timestamp r)"
  from wf have dist: "distinct (map fst (entries r))"
    and cs: "e_curr_size r = length (filter (\<lambda>p. evictable (snd p)) (entries r))"
    and k: "0 < e_k r"
    and fr: "\<And>p. p \<in> set (entries r) \<Longrightarrow> 0 \<le> fst p \<and> entry_wf r (snd p)"
    by (auto simp: replacer_E_wf_def)
  have ts: "size_t_inc (e_current_timestamp r) = ?ts"
    using clock by (simp add: size_t_inc_def INT64_MAX_def)
  obtain v where r': "r' = r\<lparr>e_current_timestamp := ?ts, entries := AList.update f v (entries r)\<rparr>"
    and v_wf: "entry_wf r' v"
    and count: "length (filter (\<lambda>p. evictable (snd p)) (AList.update f v (entries r))) =
                length (filter (\<lambda>p. evictable (snd p)) (entries r))"
  proof (cases "map_of (entries r) f")
    case None
    let ?v = "\<lparr>entry_history = [?ts], evictable = False\<rparr>"
    from ra None have 1: "r' = r\<lparr>e_current_timestamp := ?ts,
                                  entries := AList.update f ?v (entries r)\<rparr>"
      by (simp add: E_RecordAccess_def Let_def ts split: if_splits)
    have 2: "entry_wf r' ?v" using k by (simp add: entry_wf_def 1)
    from count_update_new[OF None, of evictable ?v]
    have 3: "length (filter (\<lambda>p. evictable (snd p)) (AList.update f ?v (entries r))) =
             length (filter (\<lambda>p. evictable (snd p)) (entries r))" by simp
    from that[OF 1 2 3] show ?thesis .
  next
    case (Some en)
    let ?h1 = "entry_history en @ [?ts]"
    let ?h2 = "if length ?h1 > e_k r then tl ?h1 else ?h1"
    let ?v = "en\<lparr>entry_history := ?h2\<rparr>"
    from ra Some have 1: "r' = r\<lparr>e_current_timestamp := ?ts,
                                  entries := AList.update f ?v (entries r)\<rparr>"
      by (simp add: E_RecordAccess_def Let_def ts split: if_splits)
    have "(f, en) \<in> set (entries r)" using Some by (rule map_of_SomeD)
    from fr[OF this] have w: "entry_wf r en" by simp
    have ne: "?h2 \<noteq> []" using k by (cases "entry_history en") auto
    have le: "length ?h2 \<le> e_k r" using w by (auto simp add: entry_wf_def)
    have pa: "\<forall>t \<in> set ?h2. t \<le> ?ts"
    proof
      fix t assume "t \<in> set ?h2"
      then have "t \<in> set ?h1" by (auto split: if_splits dest: list.set_sel(2)[rotated])
      then show "t \<le> ?ts" using w by (auto simp add: entry_wf_def)
    qed
    have 2: "entry_wf r' ?v"
      unfolding entry_wf_def using ne le pa by (simp add: 1)
    from count_update_tracked[OF dist Some, of evictable ?v]
    have 3: "length (filter (\<lambda>p. evictable (snd p)) (AList.update f ?v (entries r))) =
             length (filter (\<lambda>p. evictable (snd p)) (entries r))" by simp
    from that[OF 1 2 3] show ?thesis .
  qed
  have all: "0 \<le> fst p \<and> entry_wf r' (snd p)"
    if "p \<in> set (AList.update f v (entries r))" for p
  proof -
    from set_update_cases[OF that] show ?thesis
    proof
      assume "p = (f, v)"
      then show ?thesis using f v_wf by simp
    next
      assume "p \<in> set (entries r)"
      from fr[OF this] show ?thesis
        using entry_wf_mono[of r "snd p" r'] by (simp add: r')
    qed
  qed
  show ?thesis
    unfolding replacer_E_wf_def
    using dist cs k clock count all by (simp add: r' distinct_update)
qed

lemma replacer_E_wf_flag:
  assumes wf: "replacer_E_wf r" and m: "map_of (entries r) f = Some en"
    and c: "c + (if evictable en then 1 else 0) = e_curr_size r + (if b then 1 else 0)"
  shows "replacer_E_wf (r\<lparr>entries := AList.update f (en\<lparr>evictable := b\<rparr>) (entries r),
                          e_curr_size := c\<rparr>)"
proof -
  from wf have dist: "distinct (map fst (entries r))"
    and cs: "e_curr_size r = length (filter (\<lambda>p. evictable (snd p)) (entries r))"
    and k: "0 < e_k r" and clock: "int (e_current_timestamp r) < INT64_MAX"
    and fr: "\<And>p. p \<in> set (entries r) \<Longrightarrow> 0 \<le> fst p \<and> entry_wf r (snd p)"
    by (auto simp: replacer_E_wf_def)
  let ?v = "en\<lparr>evictable := b\<rparr>"
  let ?r = "r\<lparr>entries := AList.update f ?v (entries r), e_curr_size := c\<rparr>"
  have mem: "(f, en) \<in> set (entries r)" using m by (rule map_of_SomeD)
  from count_update_tracked[OF dist m, of evictable ?v] c cs
  have count: "c = length (filter (\<lambda>p. evictable (snd p)) (AList.update f ?v (entries r)))"
    by (simp split: if_splits)
  have all: "0 \<le> fst p \<and> entry_wf ?r (snd p)"
    if "p \<in> set (AList.update f ?v (entries r))" for p
  proof -
    from set_update_cases[OF that] show ?thesis
    proof
      assume "p = (f, ?v)"
      then show ?thesis using fr[OF mem] by (simp add: entry_wf_def)
    next
      assume "p \<in> set (entries r)"
      from fr[OF this] show ?thesis by (simp add: entry_wf_def)
    qed
  qed
  show ?thesis
    unfolding replacer_E_wf_def using dist k clock count all by (simp add: distinct_update)
qed

lemma E_evictable_pos:
  assumes wf: "replacer_E_wf r" and m: "map_of (entries r) f = Some en" and ev: "evictable en"
  shows "0 < e_curr_size r"
proof -
  from wf have cs: "e_curr_size r = length (filter (\<lambda>p. evictable (snd p)) (entries r))"
    by (simp add: replacer_E_wf_def)
  have "(f, en) \<in> set (entries r)" using m by (rule map_of_SomeD)
  with ev have "filter (\<lambda>p. evictable (snd p)) (entries r) \<noteq> []"
    unfolding filter_empty_conv by force
  with cs show ?thesis by simp
qed

lemma E_SetEvictable_replacer_E_wf:
  assumes wf: "replacer_E_wf r" and room: "e_curr_size r < SIZE_MAX"
    and se: "E_SetEvictable r f b = Inr r'"
  shows "replacer_E_wf r'"
proof (cases "map_of (entries r) f")
  case None
  with se have "r' = r" by (simp add: E_SetEvictable_def split: if_splits)
  with wf show ?thesis by simp
next
  case (Some en)
  show ?thesis
  proof (cases "evictable en = b")
    case True
    with se Some have "r' = r" by (simp add: E_SetEvictable_def split: if_splits)
    with wf show ?thesis by simp
  next
    case False
    let ?c = "if b then size_t_inc (e_curr_size r) else size_t_dec (e_curr_size r)"
    from se Some False
    have r': "r' = r\<lparr>entries := AList.update f (en\<lparr>evictable := b\<rparr>) (entries r),
                      e_curr_size := ?c\<rparr>"
      by (simp add: E_SetEvictable_def split: if_splits)
    have "?c + (if evictable en then 1 else 0) = e_curr_size r + (if b then 1 else 0)"
      using False room E_evictable_pos[OF wf Some]
      by (cases b) (auto simp add: size_t_inc_def size_t_dec_def size_t_sub_def SIZE_MAX_def)
    from replacer_E_wf_flag[OF wf Some this] show ?thesis unfolding r' .
  qed
qed

lemma replacer_E_wf_delete:
  assumes wf: "replacer_E_wf r" and m: "map_of (entries r) f = Some en" and ev: "evictable en"
  shows "replacer_E_wf (r\<lparr>entries := AList.delete f (entries r),
                          e_curr_size := e_curr_size r - 1\<rparr>)"
proof -
  from wf have dist: "distinct (map fst (entries r))"
    and cs: "e_curr_size r = length (filter (\<lambda>p. evictable (snd p)) (entries r))"
    and k: "0 < e_k r" and clock: "int (e_current_timestamp r) < INT64_MAX"
    and fr: "\<And>p. p \<in> set (entries r) \<Longrightarrow> 0 \<le> fst p \<and> entry_wf r (snd p)"
    by (auto simp: replacer_E_wf_def)
  from count_delete_tracked[OF dist m, of evictable] ev cs
  have count: "e_curr_size r - 1 =
      length (filter (\<lambda>p. evictable (snd p)) (AList.delete f (entries r)))"
    by simp
  have all: "0 \<le> fst p \<and> entry_wf r (snd p)"
    if "p \<in> set (AList.delete f (entries r))" for p
    using fr[OF set_delete_subset[OF that]] .
  show ?thesis
    unfolding replacer_E_wf_def using dist k clock count all
    by (simp add: distinct_delete entry_wf_def)
qed

lemma E_Remove_replacer_E_wf:
  assumes wf: "replacer_E_wf r" and rm: "E_Remove r f = Inr r'"
  shows "replacer_E_wf r'"
proof (cases "map_of (entries r) f")
  case None
  with rm have "r' = r" by (simp add: E_Remove_def split: if_splits)
  with wf show ?thesis by simp
next
  case (Some en)
  with rm have ev: "evictable en" by (simp add: E_Remove_def split: if_splits)
  from E_evictable_pos[OF wf Some ev]
  have "size_t_dec (e_curr_size r) = e_curr_size r - 1"
    by (simp add: size_t_dec_def size_t_sub_def)
  with rm Some ev have "r' = r\<lparr>entries := AList.delete f (entries r),
                                 e_curr_size := e_curr_size r - 1\<rparr>"
    by (simp add: E_Remove_def split: if_splits)
  with replacer_E_wf_delete[OF wf Some ev] show ?thesis by simp
qed

lemma E_Evict_replacer_E_wf:
  assumes wf: "replacer_E_wf r"
  shows "replacer_E_wf (snd (E_Evict r))"
proof (cases "E_Evict r")
  case (Pair v r')
  show ?thesis
  proof (cases v)
    case None
    with E_Evict_spec[OF wf] Pair wf show ?thesis by simp
  next
    case (Some f)
    with E_Evict_spec[OF wf] Pair obtain vi where
      "map_of (entries r) f = Some vi" "evictable vi"
      "r' = r\<lparr>entries := AList.delete f (entries r), e_curr_size := e_curr_size r - 1\<rparr>"
      by auto
    with replacer_E_wf_delete[OF wf this(1,2)] Pair show ?thesis by simp
  qed
qed

section \<open>Buffer pool: unpinning and eviction\<close>

lemma SetEvictable_True_ok:
  assumes "0 \<le> f" "nat f \<le> replacer_size r"
  shows "\<exists>r'. SetEvictable r f True = Inr r' \<and>
           (\<forall>fi. map_of (frame_table r) f = Some fi \<longrightarrow>
                 map_of (frame_table r') f = Some (fi\<lparr>is_evictable := True\<rparr>))"
proof -
  have "size_t_of_int f \<le> replacer_size r" using size_t_of_int_le[OF assms(1)] assms(2) by simp
  then show ?thesis
    by (auto simp: SetEvictable_def AList.update_conv' split: option.splits)
qed

lemma E_SetEvictable_True_ok:
  assumes "f < int (e_replacer_size r)" "e_replacer_size r < 2 ^ 31"
  shows "\<exists>r'. E_SetEvictable r f True = Inr r' \<and>
           (\<forall>e. map_of (entries r) f = Some e \<longrightarrow>
                 map_of (entries r') f = Some (e\<lparr>evictable := True\<rparr>))"
  using assms
  by (auto simp: E_SetEvictable_def E_frame_id_ok_def int32_of_size_t_small AList.update_conv'
      split: option.splits)

text \<open>
  Claim C7. \<open>UnpinPage(pid, dirty)\<close> returns false and leaves the pool as it is when \<open>pid\<close>
  is not resident or its pin count is already 0 (or below). Otherwise it returns true, the
  page's pin count is one less, its dirty flag is the old flag or \<open>dirty\<close> (set, never
  cleared), and the replacer is touched exactly when the pin count reaches 0: then
  \<open>SetEvictable(frame, true)\<close> is applied, after which a tracked frame is evictable; else
  the replacer is unchanged. Nothing else of the pool changes. Both versions of the pool;
  in the success case the frame of the page indexes the pool, whose size is the
  replacer's (and, where the replacer casts its size to the type of frame ids, below
  \<open>2 ^ 31\<close>).
\<close>

theorem UnpinPgImp_pin_and_dirty:
  "(page_table s pid = None \<longrightarrow> UnpinPgImp s pid dirty = Inr (False, s)) \<and>
   (\<forall>f. page_table s pid = Some f \<and> pin_count (pages s ! nat f) \<le> 0
        \<longrightarrow> UnpinPgImp s pid dirty = Inr (False, s)) \<and>
   (\<forall>f. page_table s pid = Some f \<and> 0 < pin_count (pages s ! nat f) \<and>
        0 \<le> f \<and> nat f < length (pages s) \<and> length (pages s) = replacer_size (replacer s)
        \<longrightarrow> (\<exists>r'. UnpinPgImp s pid dirty =
                    Inr (True,
                         s\<lparr>pages := (pages s)[nat f := (pages s ! nat f)
                              \<lparr>pin_count := pin_count (pages s ! nat f) - 1,
                               is_dirty := is_dirty (pages s ! nat f) \<or> dirty\<rparr>],
                           replacer := r'\<rparr>) \<and>
                  (if pin_count (pages s ! nat f) = 1
                   then SetEvictable (replacer s) f True = Inr r' \<and>
                        (\<forall>fi. map_of (frame_table (replacer s)) f = Some fi \<longrightarrow>
                           map_of (frame_table r') f = Some (fi\<lparr>is_evictable := True\<rparr>))
                   else r' = replacer s))) \<and>
   (page_table e pid = None \<longrightarrow> E_UnpinPgImp e pid dirty = Inr (False, e)) \<and>
   (\<forall>f. page_table e pid = Some f \<and> pin_count (pages e ! nat f) \<le> 0
        \<longrightarrow> E_UnpinPgImp e pid dirty = Inr (False, e)) \<and>
   (\<forall>f. page_table e pid = Some f \<and> 0 < pin_count (pages e ! nat f) \<and>
        0 \<le> f \<and> nat f < length (pages e) \<and> length (pages e) = e_replacer_size (replacer e) \<and>
        length (pages e) < 2 ^ 31
        \<longrightarrow> (\<exists>r'. E_UnpinPgImp e pid dirty =
                    Inr (True,
                         e\<lparr>pages := (pages e)[nat f := (pages e ! nat f)
                              \<lparr>pin_count := pin_count (pages e ! nat f) - 1,
                               is_dirty := is_dirty (pages e ! nat f) \<or> dirty\<rparr>],
                           replacer := r'\<rparr>) \<and>
                  (if pin_count (pages e ! nat f) = 1
                   then E_SetEvictable (replacer e) f True = Inr r' \<and>
                        (\<forall>en. map_of (entries (replacer e)) f = Some en \<longrightarrow>
                           map_of (entries r') f = Some (en\<lparr>evictable := True\<rparr>))
                   else r' = replacer e)))"
proof (intro conjI allI impI)
  show "page_table s pid = None \<Longrightarrow> UnpinPgImp s pid dirty = Inr (False, s)"
    by (simp add: UnpinPgImp_def)
  show "\<And>f. page_table s pid = Some f \<and> pin_count (pages s ! nat f) \<le> 0
        \<Longrightarrow> UnpinPgImp s pid dirty = Inr (False, s)"
    by (simp add: UnpinPgImp_def Let_def)
  show "page_table e pid = None \<Longrightarrow> E_UnpinPgImp e pid dirty = Inr (False, e)"
    by (simp add: E_UnpinPgImp_def)
  show "\<And>f. page_table e pid = Some f \<and> pin_count (pages e ! nat f) \<le> 0
        \<Longrightarrow> E_UnpinPgImp e pid dirty = Inr (False, e)"
    by (simp add: E_UnpinPgImp_def Let_def)
next
  fix f
  assume a: "page_table s pid = Some f \<and> 0 < pin_count (pages s ! nat f) \<and>
        0 \<le> f \<and> nat f < length (pages s) \<and> length (pages s) = replacer_size (replacer s)"
  let ?p = "pages s ! nat f"
  from a have "nat f \<le> replacer_size (replacer s)" by simp
  from SetEvictable_True_ok[OF _ this] a obtain r1 where
    r1: "SetEvictable (replacer s) f True = Inr r1"
      "\<forall>fi. map_of (frame_table (replacer s)) f = Some fi \<longrightarrow>
          map_of (frame_table r1) f = Some (fi\<lparr>is_evictable := True\<rparr>)" by blast
  show "\<exists>r'. UnpinPgImp s pid dirty =
                    Inr (True,
                         s\<lparr>pages := (pages s)[nat f := ?p
                              \<lparr>pin_count := pin_count ?p - 1,
                               is_dirty := is_dirty ?p \<or> dirty\<rparr>],
                           replacer := r'\<rparr>) \<and>
                  (if pin_count ?p = 1
                   then SetEvictable (replacer s) f True = Inr r' \<and>
                        (\<forall>fi. map_of (frame_table (replacer s)) f = Some fi \<longrightarrow>
                           map_of (frame_table r') f = Some (fi\<lparr>is_evictable := True\<rparr>))
                   else r' = replacer s)"
  proof (cases "pin_count ?p = 1")
    case True
    show ?thesis
      apply (rule exI[of _ r1])
      using a True r1 by (cases dirty) (simp_all add: UnpinPgImp_def Let_def)
  next
    case False
    show ?thesis
      apply (rule exI[of _ "replacer s"])
      using a False by (cases dirty) (simp_all add: UnpinPgImp_def Let_def)
  qed
next
  fix f
  assume a: "page_table e pid = Some f \<and> 0 < pin_count (pages e ! nat f) \<and>
        0 \<le> f \<and> nat f < length (pages e) \<and> length (pages e) = e_replacer_size (replacer e) \<and>
        length (pages e) < 2 ^ 31"
  let ?p = "pages e ! nat f"
  from a have "f < int (e_replacer_size (replacer e))" "e_replacer_size (replacer e) < 2 ^ 31"
    by linarith+
  from E_SetEvictable_True_ok[OF this] obtain r1 where
    r1: "E_SetEvictable (replacer e) f True = Inr r1"
      "\<forall>en. map_of (entries (replacer e)) f = Some en \<longrightarrow>
          map_of (entries r1) f = Some (en\<lparr>evictable := True\<rparr>)" by blast
  show "\<exists>r'. E_UnpinPgImp e pid dirty =
                    Inr (True,
                         e\<lparr>pages := (pages e)[nat f := ?p
                              \<lparr>pin_count := pin_count ?p - 1,
                               is_dirty := is_dirty ?p \<or> dirty\<rparr>],
                           replacer := r'\<rparr>) \<and>
                  (if pin_count ?p = 1
                   then E_SetEvictable (replacer e) f True = Inr r' \<and>
                        (\<forall>en. map_of (entries (replacer e)) f = Some en \<longrightarrow>
                           map_of (entries r') f = Some (en\<lparr>evictable := True\<rparr>))
                   else r' = replacer e)"
  proof (cases "pin_count ?p = 1")
    case True
    show ?thesis
      apply (rule exI[of _ r1])
      using a True r1 by (cases dirty) (simp_all add: E_UnpinPgImp_def Let_def)
  next
    case False
    show ?thesis
      apply (rule exI[of _ "replacer e"])
      using a False by (cases dirty) (simp_all add: E_UnpinPgImp_def Let_def)
  qed
qed

theorem UnpinPgImp_pin_and_dirty_witness:
  "UnpinPgImp pool_example 7 True = Inr (False, pool_example) \<and>
   UnpinPgImp pool_example 0 True = Inr (False, pool_example) \<and>
   (\<exists>s'. UnpinPgImp pool_example 1 True = Inr (True, s') \<and>
      pages s' ! 1 = \<lparr>frame_page_id = 1, pin_count = 0, is_dirty = True, data = [8]\<rparr> \<and>
      map_of (frame_table (replacer s')) 1 =
        Some \<lparr>history = [2], is_evictable = True, earliest_timestamp = 2\<rparr>) \<and>
   E_UnpinPgImp E_pool_example 7 True = Inr (False, E_pool_example) \<and>
   E_UnpinPgImp E_pool_example 0 True = Inr (False, E_pool_example) \<and>
   (\<exists>s'. E_UnpinPgImp E_pool_example 1 True = Inr (True, s') \<and>
      pages s' ! 1 = \<lparr>frame_page_id = 1, pin_count = 0, is_dirty = True, data = [8]\<rparr> \<and>
      map_of (entries (replacer s')) 1 = Some \<lparr>entry_history = [2], evictable = True\<rparr>)"
proof -
  have p: "page_table pool_example 7 = None" "page_table pool_example 0 = Some 0"
    "page_table pool_example 1 = Some 1" "pages pool_example ! nat 0 = \<lparr>frame_page_id = 0, pin_count = 0, is_dirty = True, data = [7]\<rparr>"
    "pages pool_example ! nat 1 = \<lparr>frame_page_id = 1, pin_count = 1, is_dirty = False, data = [8]\<rparr>"
    "length (pages pool_example) = 2" "replacer_size (replacer pool_example) = 2"
    "map_of (frame_table (replacer pool_example)) 1 = Some \<lparr>history = [2], is_evictable = False, earliest_timestamp = 2\<rparr>"
    by (simp_all add: pool_example_def)
  have q: "page_table E_pool_example 7 = None" "page_table E_pool_example 0 = Some 0"
    "page_table E_pool_example 1 = Some 1" "pages E_pool_example ! nat 0 = \<lparr>frame_page_id = 0, pin_count = 0, is_dirty = True, data = [7]\<rparr>"
    "pages E_pool_example ! nat 1 = \<lparr>frame_page_id = 1, pin_count = 1, is_dirty = False, data = [8]\<rparr>"
    "length (pages E_pool_example) = 2" "e_replacer_size (replacer E_pool_example) = 2"
    "map_of (entries (replacer E_pool_example)) 1 = Some \<lparr>entry_history = [2], evictable = False\<rparr>"
    by (simp_all add: E_pool_example_def)
  note t7 = UnpinPgImp_pin_and_dirty[where s = pool_example and e = E_pool_example
      and pid = 7 and dirty = True]
  note t0 = UnpinPgImp_pin_and_dirty[where s = pool_example and e = E_pool_example
      and pid = 0 and dirty = True]
  note t1 = UnpinPgImp_pin_and_dirty[where s = pool_example and e = E_pool_example
      and pid = 1 and dirty = True]
  have a: "UnpinPgImp pool_example 7 True = Inr (False, pool_example)"
    "E_UnpinPgImp E_pool_example 7 True = Inr (False, E_pool_example)"
    using t7 p(1) q(1) by simp_all
  have b: "UnpinPgImp pool_example 0 True = Inr (False, pool_example)"
    "E_UnpinPgImp E_pool_example 0 True = Inr (False, E_pool_example)"
    using t0 p(2,4) q(2,4) by simp_all
  from t1 p obtain r' where c: "UnpinPgImp pool_example 1 True =
      Inr (True, pool_example\<lparr>pages := (pages pool_example)[nat 1 :=
           \<lparr>frame_page_id = 1, pin_count = 0, is_dirty = True, data = [8]\<rparr>], replacer := r'\<rparr>)"
     "map_of (frame_table r') 1 = Some \<lparr>history = [2], is_evictable = True, earliest_timestamp = 2\<rparr>"
    by auto
  from t1 q obtain r'' where d: "E_UnpinPgImp E_pool_example 1 True =
      Inr (True, E_pool_example\<lparr>pages := (pages E_pool_example)[nat 1 :=
           \<lparr>frame_page_id = 1, pin_count = 0, is_dirty = True, data = [8]\<rparr>], replacer := r''\<rparr>)"
     "map_of (entries r'') 1 = Some \<lparr>entry_history = [2], evictable = True\<rparr>"
    by auto
  show ?thesis using a b c d p(6) q(6) by simp
qed

lemma obtain_frame_evicts:
  assumes "free_list s = []" "Evict (replacer s) = (Some f, r')" "is_dirty (pages s ! nat f)"
  shows "obtain_frame s =
           Some (f, s\<lparr>replacer := r',
                     disk_manager := DiskManager_WritePage (disk_manager s)
                        (frame_page_id (pages s ! nat f)) (data (pages s ! nat f)),
                     pages := (pages s)[nat f := (pages s ! nat f)\<lparr>is_dirty := False\<rparr>],
                     page_table := (page_table s)(frame_page_id (pages s ! nat f) := None)\<rparr>)"
  using assms by (simp add: obtain_frame_def Let_def)

lemma Evict_replacer_size:
  "Evict r = (Some f, r') \<Longrightarrow> replacer_size r' = replacer_size r"
  by (auto simp: Evict_def Let_def split: if_splits)

lemma RecordAccess_SetEvictable_ok:
  assumes "0 \<le> f" "nat f \<le> replacer_size r"
  shows "\<exists>r1 r2. RecordAccess r f = Inr r1 \<and> SetEvictable r1 f False = Inr r2"
proof -
  have le: "size_t_of_int f \<le> replacer_size r" using size_t_of_int_le[OF assms(1)] assms(2) by simp
  then obtain r1 where r1: "RecordAccess r f = Inr r1" "replacer_size r1 = replacer_size r"
    by (auto simp: RecordAccess_def Let_def)
  with le have "\<exists>r2. SetEvictable r1 f False = Inr r2"
    by (auto simp: SetEvictable_def split: option.splits)
  with r1 show ?thesis by blast
qed

text \<open>
  Claim C2. When the free list is empty and the replacer evicts frame \<open>f\<close> whose page is
  dirty, the frame is obtained with the victim's bytes written to disk under the victim's
  page id (the write is the next entry of the disk log and carries the bytes the frame
  held before it is reset), the dirty flag cleared and the victim's page id removed from
  the page table; \<open>NewPgImp\<close> and \<open>FetchPgImp\<close> then reuse that frame, the page table mapping
  only the new page id to it, and \<open>FetchPgImp\<close> reads the new page after the write.
\<close>

theorem dirty_victim_written_back:
  assumes "free_list s = []" and "Evict (replacer s) = (Some f, r')"
    and "0 \<le> f" and "nat f < length (pages s)"
    and "length (pages s) = replacer_size (replacer s)"
    and "is_dirty (pages s ! nat f)"
  shows "(\<exists>s1. obtain_frame s = Some (f, s1) \<and>
           disk_log (disk_manager s1) =
             disk_log (disk_manager s) @
               [WritePage (frame_page_id (pages s ! nat f)) (data (pages s ! nat f))] \<and>
           disk_pages (disk_manager s1) (frame_page_id (pages s ! nat f)) = data (pages s ! nat f) \<and>
           \<not> is_dirty (pages s1 ! nat f) \<and> data (pages s1 ! nat f) = data (pages s ! nat f) \<and>
           page_table s1 = (page_table s)(frame_page_id (pages s ! nat f) := None)) \<and>
         (\<exists>s'. NewPgImp s = Inr ((Some f, pool_next_page_id s), s') \<and>
           disk_log (disk_manager s') =
             disk_log (disk_manager s) @
               [WritePage (frame_page_id (pages s ! nat f)) (data (pages s ! nat f))] \<and>
           disk_pages (disk_manager s') (frame_page_id (pages s ! nat f)) = data (pages s ! nat f) \<and>
           pages s' ! nat f =
             \<lparr>frame_page_id = pool_next_page_id s, pin_count = 1, is_dirty = False,
              data = replicate BUSTUB_PAGE_SIZE 0\<rparr> \<and>
           page_table s' =
             ((page_table s)(frame_page_id (pages s ! nat f) := None))
               (pool_next_page_id s \<mapsto> f)) \<and>
         (page_table s pid = None \<longrightarrow>
           (\<exists>s'. FetchPgImp s pid = Inr (Some f, s') \<and>
              disk_log (disk_manager s') =
                disk_log (disk_manager s) @
                  [WritePage (frame_page_id (pages s ! nat f)) (data (pages s ! nat f)),
                   ReadPage pid] \<and>
              frame_page_id (pages s' ! nat f) = pid \<and> pin_count (pages s' ! nat f) = 1 \<and>
              \<not> is_dirty (pages s' ! nat f) \<and>
              page_table s' =
                ((page_table s)(frame_page_id (pages s ! nat f) := None))(pid \<mapsto> f)))"
proof -
  note of = obtain_frame_evicts[OF assms(1,2,6)]
  have rs: "nat f \<le> replacer_size r'"
    using Evict_replacer_size[OF assms(2)] assms(4,5) by simp
  from RecordAccess_SetEvictable_ok[OF assms(3) rs] obtain r1 r2 where
    r: "RecordAccess r' f = Inr r1" "SetEvictable r1 f False = Inr r2" by blast
  have 1: "\<exists>s1. obtain_frame s = Some (f, s1) \<and>
           disk_log (disk_manager s1) =
             disk_log (disk_manager s) @
               [WritePage (frame_page_id (pages s ! nat f)) (data (pages s ! nat f))] \<and>
           disk_pages (disk_manager s1) (frame_page_id (pages s ! nat f)) = data (pages s ! nat f) \<and>
           \<not> is_dirty (pages s1 ! nat f) \<and> data (pages s1 ! nat f) = data (pages s ! nat f) \<and>
           page_table s1 = (page_table s)(frame_page_id (pages s ! nat f) := None)"
    using of assms(4) by (simp add: DiskManager_WritePage_def)
  have 2: "\<exists>s'. NewPgImp s = Inr ((Some f, pool_next_page_id s), s') \<and>
           disk_log (disk_manager s') =
             disk_log (disk_manager s) @
               [WritePage (frame_page_id (pages s ! nat f)) (data (pages s ! nat f))] \<and>
           disk_pages (disk_manager s') (frame_page_id (pages s ! nat f)) = data (pages s ! nat f) \<and>
           pages s' ! nat f =
             \<lparr>frame_page_id = pool_next_page_id s, pin_count = 1, is_dirty = False,
              data = replicate BUSTUB_PAGE_SIZE 0\<rparr> \<and>
           page_table s' =
             ((page_table s)(frame_page_id (pages s ! nat f) := None))(pool_next_page_id s \<mapsto> f)"
    using of assms(4) r
    by (simp add: NewPgImp_def Let_def DiskManager_WritePage_def ResetMemory_def)
  have 3: "page_table s pid = None \<Longrightarrow>
         \<exists>s'. FetchPgImp s pid = Inr (Some f, s') \<and>
           disk_log (disk_manager s') =
             disk_log (disk_manager s) @
               [WritePage (frame_page_id (pages s ! nat f)) (data (pages s ! nat f)),
                ReadPage pid] \<and>
           frame_page_id (pages s' ! nat f) = pid \<and> pin_count (pages s' ! nat f) = 1 \<and>
           \<not> is_dirty (pages s' ! nat f) \<and>
           page_table s' =
             ((page_table s)(frame_page_id (pages s ! nat f) := None))(pid \<mapsto> f)"
    using of assms(4) r
    by (simp add: FetchPgImp_def Let_def DiskManager_WritePage_def DiskManager_ReadPage_def
        ResetMemory_def)
  from 1 2 3 show ?thesis by blast
qed

lemma pool_example_Evict:
  "Evict (replacer pool_example) =
     (Some 0, \<lparr>frame_table = [(1, \<lparr>history = [2], is_evictable = False, earliest_timestamp = 2\<rparr>)],
         current_timestamp = 2, curr_size = 0, replacer_size = 2, lru_k = 2\<rparr>)"
  by (simp add: pool_example_def Evict_def CalculateBackwardKDistance_def size_t_dec_def
      size_t_sub_def)

theorem dirty_victim_written_back_witness:
  "(\<exists>s'. NewPgImp pool_example = Inr ((Some 0, 2), s') \<and>
      disk_log (disk_manager s') = [WritePage 0 [7]] \<and>
      page_table s' 0 = None \<and> page_table s' 2 = Some 0 \<and> \<not> is_dirty (pages s' ! 0)) \<and>
   (\<exists>s'. FetchPgImp pool_example 9 = Inr (Some 0, s') \<and>
      disk_log (disk_manager s') = [WritePage 0 [7], ReadPage 9] \<and>
      page_table s' 0 = None \<and> page_table s' 9 = Some 0 \<and> \<not> is_dirty (pages s' ! 0))"
proof -
  have p: "free_list pool_example = []" "(0::int) \<le> 0" "nat 0 < length (pages pool_example)"
    "length (pages pool_example) = replacer_size (replacer pool_example)"
    "is_dirty (pages pool_example ! nat 0)" "page_table pool_example 9 = None"
    by (simp_all add: pool_example_def)
  have q: "pages pool_example ! nat 0 = \<lparr>frame_page_id = 0, pin_count = 0, is_dirty = True, data = [7]\<rparr>"
    "pool_next_page_id pool_example = 2" "disk_log (disk_manager pool_example) = []"
    by (simp_all add: pool_example_def)
  from dirty_victim_written_back[OF p(1) pool_example_Evict p(2-5), of 9] p(6) q
  show ?thesis by auto
qed

section \<open>B+ tree pages: accessors and leaf insertion\<close>

text \<open>
  A read of the array outside the live entries is a fault, and so is the result of an
  accessor that reads without the bounds check.
\<close>

lemma array_read_out_of_range:
  "index < 0 \<or> GetSize p \<le> index \<Longrightarrow> array_read p index = Inl (OutOfBounds index)"
  by (auto simp add: array_read_def)

lemma array_read_in_range:
  "0 \<le> index \<Longrightarrow> index < GetSize p \<Longrightarrow> array_read p index = Inr (array p ! nat index)"
  by (simp add: array_read_def)

lemma KeyAt_unguarded_out_of_range:
  "index < 0 \<or> GetSize p \<le> index \<Longrightarrow> KeyAt_unguarded p index = Inl (OutOfBounds index)"
  by (simp add: KeyAt_unguarded_def array_read_out_of_range)

text \<open>
  Claim C10. The four read accessors are total and never read outside the live entries:
  for every page and every index each returns a value, never a fault, and the value is the
  one the accessor of the tree model computes. For an index outside \<open>[0, size)\<close> the value
  is the default: \<open>KeyAt\<close> of a leaf and of an internal page the value-initialised key,
  \<open>ValueAt\<close> of an internal page \<open>INVALID_PAGE_ID\<close>, and \<open>ValueAt\<close> of a leaf the
  value-initialised record id.
\<close>

theorem accessors_total_and_default_out_of_range:
  "Leaf_KeyAt_access leaf index = Inr (Leaf_KeyAt leaf index) \<and>
   Leaf_ValueAt_access leaf index = Inr (Leaf_ValueAt leaf index) \<and>
   Internal_KeyAt_access internal index = Inr (Internal_KeyAt internal index) \<and>
   Internal_ValueAt_access internal index = Inr (Internal_ValueAt internal index) \<and>
   (index < 0 \<or> GetSize leaf \<le> index \<longrightarrow>
      Leaf_KeyAt_access leaf index = Inr KeyType_default \<and>
      Leaf_ValueAt_access leaf index = Inr RID_default) \<and>
   (index < 0 \<or> GetSize internal \<le> index \<longrightarrow>
      Internal_KeyAt_access internal index = Inr KeyType_default \<and>
      Internal_ValueAt_access internal index = Inr INVALID_PAGE_ID)"
proof -
  note in_range = array_read_in_range
  have lk: "Leaf_KeyAt_access leaf index = Inr (Leaf_KeyAt leaf index)"
    by (simp add: Leaf_KeyAt_access_def Leaf_KeyAt_def in_range)
  have lv: "Leaf_ValueAt_access leaf index = Inr (Leaf_ValueAt leaf index)"
    by (simp add: Leaf_ValueAt_access_def Leaf_ValueAt_def in_range)
  have ik: "Internal_KeyAt_access internal index = Inr (Internal_KeyAt internal index)"
    by (simp add: Internal_KeyAt_access_def Internal_KeyAt_def in_range)
  have iv: "Internal_ValueAt_access internal index = Inr (Internal_ValueAt internal index)"
    by (simp add: Internal_ValueAt_access_def Internal_ValueAt_def in_range)
  have l_out: "Leaf_KeyAt leaf index = KeyType_default \<and> Leaf_ValueAt leaf index = RID_default"
    if "index < 0 \<or> GetSize leaf \<le> index"
    using that by (auto simp add: Leaf_KeyAt_def Leaf_ValueAt_def)
  have i_out: "Internal_KeyAt internal index = KeyType_default \<and>
      Internal_ValueAt internal index = INVALID_PAGE_ID"
    if "index < 0 \<or> GetSize internal \<le> index"
    using that by (auto simp add: Internal_KeyAt_def Internal_ValueAt_def)
  show ?thesis
    using lk lv ik iv l_out i_out by simp
qed

theorem accessors_total_and_default_out_of_range_witness:
  "Leaf_KeyAt_access leaf_example 3 = Inr KeyType_default \<and>
   Leaf_ValueAt_access leaf_example 3 = Inr RID_default \<and>
   Leaf_KeyAt_access leaf_example (-1) = Inr KeyType_default \<and>
   Leaf_ValueAt_access leaf_example (-1) = Inr RID_default \<and>
   Internal_KeyAt_access internal_example 2 = Inr KeyType_default \<and>
   Internal_ValueAt_access internal_example 2 = Inr INVALID_PAGE_ID \<and>
   Internal_KeyAt_access internal_example (-1) = Inr KeyType_default \<and>
   Internal_ValueAt_access internal_example (-1) = Inr INVALID_PAGE_ID \<and>
   Leaf_KeyAt_access leaf_example 1 = Inr 20 \<and>
   Leaf_ValueAt_access leaf_example 1 = Inr (RID 0 20) \<and>
   Internal_KeyAt_access internal_example 1 = Inr 40 \<and>
   Internal_ValueAt_access internal_example 1 = Inr 2 \<and>
   KeyAt_unguarded leaf_example 3 = Inl (OutOfBounds 3) \<and>
   KeyAt_unguarded internal_example (-1) = Inl (OutOfBounds (-1))"
  using accessors_total_and_default_out_of_range[of leaf_example 3 internal_example]
    accessors_total_and_default_out_of_range[of leaf_example "-1" internal_example]
    accessors_total_and_default_out_of_range[of leaf_example 2 internal_example]
    accessors_total_and_default_out_of_range[of leaf_example 1 internal_example]
  by (simp add: leaf_example_def internal_example_def GetSize_def
      Leaf_KeyAt_def Leaf_ValueAt_def Internal_KeyAt_def Internal_ValueAt_def
      KeyAt_unguarded_def array_read_def)

subsection \<open>The binary search of a leaf finds the first key not below the search key\<close>

lemma comparator_simps:
  "comparator a b \<ge> 0 \<longleftrightarrow> b \<le> a" "comparator a b = 0 \<longleftrightarrow> a = b"
  "comparator a b < 0 \<longleftrightarrow> a < b" "comparator a b > 0 \<longleftrightarrow> b < a"
  by (auto simp: comparator_def)

lemma Leaf_KeyIndex_loop_lower_bound:
  assumes "sorted (map fst arr)"
    and "0 \<le> left" "left \<le> right + 1" "right < int (length arr)" "ans = right + 1"
    and "\<forall>i. 0 \<le> i \<and> i < left \<longrightarrow> fst (arr ! nat i) < key"
    and "\<forall>i. right < i \<and> i < int (length arr) \<longrightarrow> key \<le> fst (arr ! nat i)"
  shows "0 \<le> Leaf_KeyIndex_loop arr key left right ans \<and>
         Leaf_KeyIndex_loop arr key left right ans \<le> int (length arr) \<and>
         (\<forall>i. 0 \<le> i \<and> i < Leaf_KeyIndex_loop arr key left right ans
               \<longrightarrow> fst (arr ! nat i) < key) \<and>
         (\<forall>i. Leaf_KeyIndex_loop arr key left right ans \<le> i \<and> i < int (length arr)
               \<longrightarrow> key \<le> fst (arr ! nat i))"
  using assms
proof (induction arr key left right ans rule: Leaf_KeyIndex_loop.induct)
  case (1 arr key left right ans)
  let ?mid = "(left + right) div 2"
  show ?case
  proof (cases "left \<le> right")
    case False
    then have "left = right + 1" using "1.prems" by simp
    then show ?thesis using False "1.prems"
      by (subst (1 2 3 4) Leaf_KeyIndex_loop.simps) auto
  next
    case True
    have mid: "left \<le> ?mid" "?mid \<le> right" using True by auto
    have mlen: "0 \<le> ?mid" "nat ?mid < length arr" using mid "1.prems" by auto
    show ?thesis
    proof (cases "comparator (fst (arr ! nat ?mid)) key \<ge> 0")
      case ge: True
      then have kle: "key \<le> fst (arr ! nat ?mid)" by (simp add: comparator_simps)
      have up: "\<forall>i. ?mid - 1 < i \<and> i < int (length arr) \<longrightarrow> key \<le> fst (arr ! nat i)"
      proof (intro allI impI)
        fix i assume i: "?mid - 1 < i \<and> i < int (length arr)"
        then have "nat ?mid \<le> nat i" "nat i < length arr" using mlen by auto
        then have "fst (arr ! nat ?mid) \<le> fst (arr ! nat i)"
          using "1.prems"(1) by (simp add: sorted_iff_nth_mono)
        with kle show "key \<le> fst (arr ! nat i)" by simp
      qed
      have eq: "Leaf_KeyIndex_loop arr key left right ans =
                Leaf_KeyIndex_loop arr key left (?mid - 1) ?mid"
        using True ge by (subst Leaf_KeyIndex_loop.simps) (simp add: Let_def)
      have "left \<le> ?mid - 1 + 1" "?mid - 1 < int (length arr)" "?mid = ?mid - 1 + 1"
        using mid mlen by auto
      from "1.IH"(1)[OF True refl ge "1.prems"(1,2) this "1.prems"(6) up]
      show ?thesis unfolding eq .
    next
      case lt: False
      then have klt: "fst (arr ! nat ?mid) < key" by (simp add: comparator_simps)
      have low: "\<forall>i. 0 \<le> i \<and> i < ?mid + 1 \<longrightarrow> fst (arr ! nat i) < key"
      proof (intro allI impI)
        fix i assume i: "0 \<le> i \<and> i < ?mid + 1"
        then have "nat i \<le> nat ?mid" using mlen by auto
        then have "fst (arr ! nat i) \<le> fst (arr ! nat ?mid)"
          using "1.prems"(1) mlen by (simp add: sorted_iff_nth_mono)
        with klt show "fst (arr ! nat i) < key" by simp
      qed
      have eq: "Leaf_KeyIndex_loop arr key left right ans =
                Leaf_KeyIndex_loop arr key (?mid + 1) right ans"
        using True lt by (subst Leaf_KeyIndex_loop.simps) (simp add: Let_def)
      have "0 \<le> ?mid + 1" "?mid + 1 \<le> right + 1" using mid mlen by auto
      from "1.IH"(2)[OF True refl lt "1.prems"(1) this "1.prems"(4,5) low "1.prems"(7)]
      show ?thesis unfolding eq .
    qed
  qed
qed

lemma Leaf_KeyIndex_lower_bound:
  assumes "sorted (map fst (array p))"
  shows "0 \<le> Leaf_KeyIndex p key" and "Leaf_KeyIndex p key \<le> GetSize p"
    and "\<And>i. 0 \<le> i \<Longrightarrow> i < Leaf_KeyIndex p key \<Longrightarrow> fst (array p ! nat i) < key"
    and "\<And>i. Leaf_KeyIndex p key \<le> i \<Longrightarrow> i < GetSize p \<Longrightarrow> key \<le> fst (array p ! nat i)"
proof -
  have "0 \<le> Leaf_KeyIndex p key \<and> Leaf_KeyIndex p key \<le> GetSize p \<and>
         (\<forall>i. 0 \<le> i \<and> i < Leaf_KeyIndex p key \<longrightarrow> fst (array p ! nat i) < key) \<and>
         (\<forall>i. Leaf_KeyIndex p key \<le> i \<and> i < GetSize p \<longrightarrow> key \<le> fst (array p ! nat i))"
    unfolding Leaf_KeyIndex_def GetSize_def
    by (rule Leaf_KeyIndex_loop_lower_bound[OF assms]) auto
  then show "0 \<le> Leaf_KeyIndex p key" and "Leaf_KeyIndex p key \<le> GetSize p"
    and "\<And>i. 0 \<le> i \<Longrightarrow> i < Leaf_KeyIndex p key \<Longrightarrow> fst (array p ! nat i) < key"
    and "\<And>i. Leaf_KeyIndex p key \<le> i \<Longrightarrow> i < GetSize p \<Longrightarrow> key \<le> fst (array p ! nat i)"
    by blast+
qed

lemma sorted_wrt_less_imp_sorted: "sorted_wrt (<) (xs :: int list) \<Longrightarrow> sorted xs"
  by (simp add: sorted_wrt_mono_rel[of xs "(<)" "(\<le>)"])

lemma Leaf_KeyIndex_present:
  assumes s: "sorted_wrt (<) (map fst (array p))" and k: "key \<in> fst ` set (array p)"
  shows "Leaf_KeyIndex p key < GetSize p \<and> fst (array p ! nat (Leaf_KeyIndex p key)) = key"
proof -
  note lb = Leaf_KeyIndex_lower_bound[OF sorted_wrt_less_imp_sorted[OF s], where key = key]
  let ?r = "Leaf_KeyIndex p key"
  from k obtain j where j: "j < length (array p)" "fst (array p ! j) = key"
    by (metis imageE in_set_conv_nth)
  have "\<not> int j < ?r"
  proof
    assume "int j < ?r"
    from lb(3)[OF _ this] have "fst (array p ! nat (int j)) < key" by simp
    with j(2) show False by simp
  qed
  then have rj: "?r \<le> int j" by simp
  then have rlt: "?r < GetSize p" using j by (simp add: GetSize_def)
  have "key \<le> fst (array p ! nat ?r)" using lb(4)[OF _ rlt] by simp
  moreover have "fst (array p ! nat ?r) \<le> fst (array p ! j)"
  proof -
    have "nat ?r \<le> j" using rj lb(1) by linarith
    then show ?thesis using sorted_wrt_less_imp_sorted[OF s] j(1)
      by (simp add: sorted_iff_nth_mono)
  qed
  ultimately show ?thesis using j rlt by simp
qed

lemma Leaf_KeyIndex_absent:
  assumes s: "sorted_wrt (<) (map fst (array p))" and k: "key \<notin> fst ` set (array p)"
  shows "\<not> (Leaf_KeyIndex p key < GetSize p \<and>
            comparator (fst (array p ! nat (Leaf_KeyIndex p key))) key = 0)"
proof
  assume a: "Leaf_KeyIndex p key < GetSize p \<and>
            comparator (fst (array p ! nat (Leaf_KeyIndex p key))) key = 0"
  note lb = Leaf_KeyIndex_lower_bound[OF sorted_wrt_less_imp_sorted[OF s], where key = key]
  have "Leaf_KeyIndex p key < int (length (array p))" using a by (simp add: GetSize_def)
  with lb(1) have "nat (Leaf_KeyIndex p key) < length (array p)" by linarith
  then have "fst (array p ! nat (Leaf_KeyIndex p key)) \<in> fst ` set (array p)" by simp
  with a k show False by (simp add: comparator_simps)
qed

lemma sorted_wrt_insert_at:
  assumes s: "sorted_wrt (<) (map fst (arr :: (int \<times> 'v) list))"
    and r: "r \<le> length arr"
    and lo: "\<forall>i < r. fst (arr ! i) < key"
    and hi: "\<forall>i. r \<le> i \<and> i < length arr \<longrightarrow> key < fst (arr ! i)"
  shows "sorted_wrt (<) (map fst (take r arr @ (key, v) # drop r arr))"
proof -
  have t: "sorted_wrt (<) (map fst (take r arr))" "sorted_wrt (<) (map fst (drop r arr))"
    using s by (simp_all add: sorted_wrt_take sorted_wrt_drop take_map[symmetric] drop_map[symmetric])
  have a: "\<forall>x \<in> set (take r arr). fst x < key"
  proof
    fix x assume "x \<in> set (take r arr)"
    then obtain i where "i < length (take r arr)" "x = take r arr ! i"
      by (metis in_set_conv_nth)
    then have "i < r" "x = arr ! i" by simp_all
    then show "fst x < key" using lo by simp
  qed
  have b: "\<forall>y \<in> set (drop r arr). key < fst y"
  proof
    fix y assume "y \<in> set (drop r arr)"
    then obtain j where "j < length (drop r arr)" "y = drop r arr ! j"
      by (metis in_set_conv_nth)
    then have "r + j < length arr" "y = arr ! (r + j)" using r by simp_all
    then show "key < fst y" using hi by simp
  qed
  have c: "\<forall>x \<in> set (take r arr). \<forall>y \<in> set (drop r arr). fst x < fst y"
    using a b by force
  show ?thesis using t a b c by (simp add: sorted_wrt_append)
qed

lemma Leaf_Insert_present:
  assumes "sorted_wrt (<) (map fst (array p))" "key \<in> fst ` set (array p)"
  shows "Leaf_Insert p key val = (-1, p)"
  using Leaf_KeyIndex_present[OF assms]
  by (simp add: Leaf_Insert_def Let_def comparator_simps)

lemma Leaf_Insert_absent:
  assumes s: "sorted_wrt (<) (map fst (array p))" and k: "key \<notin> fst ` set (array p)"
  shows "\<exists>i \<le> length (array p).
           Leaf_Insert p key val =
             (GetSize p + 1, p\<lparr>array := take i (array p) @ (key, val) # drop i (array p)\<rparr>) \<and>
           sorted_wrt (<) (map fst (take i (array p) @ (key, val) # drop i (array p)))"
proof -
  note lb = Leaf_KeyIndex_lower_bound[OF sorted_wrt_less_imp_sorted[OF s], where key = key]
  let ?r = "Leaf_KeyIndex p key"
  have "?r \<le> int (length (array p))" using lb(2) by (simp add: GetSize_def)
  with lb(1) have r: "nat ?r \<le> length (array p)" by linarith
  have lo: "\<forall>i < nat ?r. fst (array p ! i) < key"
  proof (intro allI impI)
    fix i assume "i < nat ?r"
    then have "0 \<le> int i" "int i < ?r" by simp_all
    from lb(3)[OF this] show "fst (array p ! i) < key" by simp
  qed
  have hi: "\<forall>i. nat ?r \<le> i \<and> i < length (array p) \<longrightarrow> key < fst (array p ! i)"
  proof (intro allI impI)
    fix i assume i: "nat ?r \<le> i \<and> i < length (array p)"
    then have "?r \<le> int i" "int i < GetSize p" using lb(1) by (auto simp add: GetSize_def)
    from lb(4)[OF this] have "key \<le> fst (array p ! i)" by simp
    moreover have "fst (array p ! i) \<noteq> key" using k i by (metis image_eqI nth_mem)
    ultimately show "key < fst (array p ! i)" by simp
  qed
  have "Leaf_Insert p key val =
          (GetSize p + 1, p\<lparr>array := take (nat ?r) (array p) @ (key, val) # drop (nat ?r) (array p)\<rparr>)"
    using Leaf_KeyIndex_absent[OF s k] r
    by (auto simp add: Leaf_Insert_def Let_def GetSize_def)
  with sorted_wrt_insert_at[OF s r lo hi] r show ?thesis by blast
qed

lemma GetValue_found_Insert_false:
  assumes "GetValue t key = Some (Some v0)"
  shows "Tree_Insert t key val = Some (False, t)"
proof -
  from assms have ne: "\<not> IsEmpty t" by (auto simp: GetValue_def)
  with assms obtain leaf_pid leaf where
    f: "FindLeaf t key = Some leaf_pid" "fetch_leaf (tree_pages t) leaf_pid = Some leaf"
       "Leaf_Lookup leaf key = Some v0"
    by (auto simp: GetValue_def split: bind_splits)
  from f(3) have "Leaf_Insert leaf key val = (-1, leaf)"
    by (auto simp: Leaf_Lookup_def Leaf_Insert_def Let_def split: if_splits)
  then show ?thesis using ne f(1,2) by (simp add: Tree_Insert_def)
qed

text \<open>\<open>Insert\<close> of an internal page with no live entry returns 1 and leaves one live slot.\<close>

lemma Internal_Insert_empty_page:
  "array p = [] \<Longrightarrow> Internal_Insert p key val = Some (1, p\<lparr>array := [unwritten_slot]\<rparr>)"
  by (simp add: Internal_Insert_def GetSize_def)

section \<open>Removal: borrowing from the right sibling\<close>

lemma borrow_right_leaf:
  assumes node: "tree_pages t node_pid = Some (LeafPage node)"
    and par: "parent_page_id node = parent_pid" "parent_pid \<noteq> INVALID_PAGE_ID"
      "tree_pages t parent_pid = Some (InternalPage parent)"
    and idx: "ValueIndex parent (page_id node) = index" "0 \<le> index" "index < GetSize parent - 1"
    and left: "index > 0 \<longrightarrow>
                 (\<exists>left. tree_pages t (Internal_ValueAt parent (index - 1)) = Some left \<and>
                         \<not> Page_GetSize left > Page_GetMinSize left)"
    and right: "Internal_ValueAt parent (index + 1) = right_pid"
      "tree_pages t right_pid = Some (LeafPage right)" "GetSize right > GetMinSize right"
      "0 \<le> GetMinSize right"
    and dist: "node_pid \<noteq> right_pid"
  shows "RedistributeOrMerge t node_pid =
           Some (t\<lparr>tree_pages := (tree_pages t)
                   (right_pid \<mapsto> LeafPage (right\<lparr>array := tl (array right)\<rparr>),
                    node_pid \<mapsto> LeafPage (node\<lparr>array := array node @ [hd (array right)]\<rparr>),
                    parent_pid \<mapsto> InternalPage (parent\<lparr>array := (array parent)
                       [nat (index + 1) :=
                          (Leaf_KeyAt (right\<lparr>array := tl (array right)\<rparr>) 0, right_pid)]\<rparr>))\<rparr>)"
proof -
  have pn: "parent_pid \<noteq> node_pid" "parent_pid \<noteq> right_pid"
    using node par(3) right(2) by auto
  have bl: "borrow_from_left (tree_pages t) node_pid parent_pid index = Some None"
    using left par(3) by (auto simp: borrow_from_left_def fetch_internal_def)
  have rs: "GetSize right \<noteq> 0" using right(3,4) by simp
  have sv: "snd (array parent ! nat (index + 1)) = right_pid"
    using right(1) idx by (simp add: Internal_ValueAt_def split: if_splits)
  have br: "borrow_from_right (tree_pages t) node_pid parent_pid index =
              Some (Some ((tree_pages t)
                   (right_pid \<mapsto> LeafPage (right\<lparr>array := tl (array right)\<rparr>),
                    node_pid \<mapsto> LeafPage (node\<lparr>array := array node @ [hd (array right)]\<rparr>),
                    parent_pid \<mapsto> InternalPage (parent\<lparr>array := (array parent)
                       [nat (index + 1) :=
                          (Leaf_KeyAt (right\<lparr>array := tl (array right)\<rparr>) 0, right_pid)]\<rparr>))))"
    using node par(3) idx right rs dist pn sv
    by (simp add: borrow_from_right_def fetch_internal_def fetch_leaf_def Page_GetSize_def
        Page_GetMinSize_def RedistributeNode_def IsLeafPage_def ShiftHeadItemToBack_def
        Internal_SetKeyAt_def Page_KeyAt_def)
  show ?thesis
    using node par idx bl br
    by (subst RedistributeOrMerge.simps)
       (simp add: GetParentPageId_def GetPageId_def fetch_internal_def)
qed

lemma borrow_right_internal:
  assumes node: "tree_pages t node_pid = Some (InternalPage node)"
    and par: "parent_page_id node = parent_pid" "parent_pid \<noteq> INVALID_PAGE_ID"
      "tree_pages t parent_pid = Some (InternalPage parent)"
    and idx: "ValueIndex parent (page_id node) = index" "0 \<le> index" "index < GetSize parent - 1"
    and left: "index > 0 \<longrightarrow>
                 (\<exists>left. tree_pages t (Internal_ValueAt parent (index - 1)) = Some left \<and>
                         \<not> Page_GetSize left > Page_GetMinSize left)"
    and right: "Internal_ValueAt parent (index + 1) = right_pid"
      "tree_pages t right_pid = Some (InternalPage right)" "GetSize right > GetMinSize right"
      "0 \<le> GetMinSize right"
    and child: "tree_pages t (snd (hd (array right))) = Some child"
    and dist: "node_pid \<noteq> right_pid" "parent_pid \<noteq> node_pid" "parent_pid \<noteq> right_pid"
      "snd (hd (array right)) \<notin> {node_pid, right_pid, parent_pid}"
  shows "RedistributeOrMerge t node_pid =
           Some (t\<lparr>tree_pages := (tree_pages t)
                   (right_pid \<mapsto> InternalPage (right\<lparr>array := tl (array right)\<rparr>),
                    node_pid \<mapsto> InternalPage (node\<lparr>array := array node @ [hd (array right)]\<rparr>),
                    snd (hd (array right)) \<mapsto> SetParentPageId child (page_id node),
                    parent_pid \<mapsto> InternalPage (parent\<lparr>array := (array parent)
                       [nat (index + 1) :=
                          (Internal_KeyAt (right\<lparr>array := tl (array right)\<rparr>) 0, right_pid)]\<rparr>))\<rparr>)"
proof -
  have bl: "borrow_from_left (tree_pages t) node_pid parent_pid index = Some None"
    using left par(3) by (auto simp: borrow_from_left_def fetch_internal_def)
  have rs: "GetSize right \<noteq> 0" using right(3,4) by simp
  have sv: "snd (array parent ! nat (index + 1)) = right_pid"
    using right(1) idx by (simp add: Internal_ValueAt_def split: if_splits)
  have br: "borrow_from_right (tree_pages t) node_pid parent_pid index =
              Some (Some ((tree_pages t)
                   (right_pid \<mapsto> InternalPage (right\<lparr>array := tl (array right)\<rparr>),
                    node_pid \<mapsto> InternalPage (node\<lparr>array := array node @ [hd (array right)]\<rparr>),
                    snd (hd (array right)) \<mapsto> SetParentPageId child (page_id node),
                    parent_pid \<mapsto> InternalPage (parent\<lparr>array := (array parent)
                       [nat (index + 1) :=
                          (Internal_KeyAt (right\<lparr>array := tl (array right)\<rparr>) 0, right_pid)]\<rparr>))))"
    using node par(3) idx right rs dist sv child
    by (simp add: borrow_from_right_def fetch_internal_def Page_GetSize_def
        Page_GetMinSize_def RedistributeNode_def IsLeafPage_def RelocateHeadToBack_def
        Internal_SetKeyAt_def Page_KeyAt_def Let_def)
  show ?thesis
    using node par idx bl br
    by (subst RedistributeOrMerge.simps)
       (simp add: GetParentPageId_def GetPageId_def fetch_internal_def)
qed

text \<open>
  Claim C5. A node that is not the root, at index \<open>i\<close> of its parent, whose left sibling
  (if any) cannot lend, and whose right sibling at index \<open>i + 1\<close> holds more than
  \<open>min_size\<close> entries: \<open>RedistributeOrMerge\<close> (called by \<open>Remove\<close> on the underfull leaf and
  by itself on an underfull parent) moves the right sibling's head entry to the node's
  tail and sets the parent's key at index \<open>i + 1\<close> to \<open>KeyAt(0)\<close> of the right sibling as it
  is after the move, which is the right sibling's former second key. For internal pages
  the moved child is reparented to the node. No other page changes.
\<close>

theorem borrow_from_right_sets_separator:
  assumes "tree_pages t node_pid = Some node"
    and "GetParentPageId node = parent_pid" and "parent_pid \<noteq> INVALID_PAGE_ID"
    and "tree_pages t parent_pid = Some (InternalPage parent)"
    and "ValueIndex parent (GetPageId node) = index"
    and "0 \<le> index" and "index < GetSize parent - 1"
    and "index > 0 \<longrightarrow>
           (\<exists>left. tree_pages t (Internal_ValueAt parent (index - 1)) = Some left \<and>
                   \<not> Page_GetSize left > Page_GetMinSize left)"
    and "Internal_ValueAt parent (index + 1) = right_pid"
    and "tree_pages t right_pid = Some right"
    and "Page_GetSize right > Page_GetMinSize right" and "0 \<le> Page_GetMinSize right"
    and "node_pid \<noteq> right_pid"
  shows "(\<forall>nl rl. node = LeafPage nl \<and> right = LeafPage rl \<longrightarrow>
            RedistributeOrMerge t node_pid =
              Some (t\<lparr>tree_pages := (tree_pages t)
                      (right_pid \<mapsto> LeafPage (rl\<lparr>array := tl (array rl)\<rparr>),
                       node_pid \<mapsto> LeafPage (nl\<lparr>array := array nl @ [hd (array rl)]\<rparr>),
                       parent_pid \<mapsto> InternalPage (parent\<lparr>array := (array parent)
                          [nat (index + 1) :=
                             (Leaf_KeyAt (rl\<lparr>array := tl (array rl)\<rparr>) 0, right_pid)]\<rparr>))\<rparr>) \<and>
            (2 \<le> length (array rl) \<longrightarrow>
               Leaf_KeyAt (rl\<lparr>array := tl (array rl)\<rparr>) 0 = fst (array rl ! 1))) \<and>
         (\<forall>nn rn child. node = InternalPage nn \<and> right = InternalPage rn \<and>
            parent_pid \<noteq> node_pid \<and> parent_pid \<noteq> right_pid \<and>
            tree_pages t (snd (hd (array rn))) = Some child \<and>
            snd (hd (array rn)) \<notin> {node_pid, right_pid, parent_pid} \<longrightarrow>
            RedistributeOrMerge t node_pid =
              Some (t\<lparr>tree_pages := (tree_pages t)
                      (right_pid \<mapsto> InternalPage (rn\<lparr>array := tl (array rn)\<rparr>),
                       node_pid \<mapsto> InternalPage (nn\<lparr>array := array nn @ [hd (array rn)]\<rparr>),
                       snd (hd (array rn)) \<mapsto> SetParentPageId child (page_id nn),
                       parent_pid \<mapsto> InternalPage (parent\<lparr>array := (array parent)
                          [nat (index + 1) :=
                             (Internal_KeyAt (rn\<lparr>array := tl (array rn)\<rparr>) 0, right_pid)]\<rparr>))\<rparr>) \<and>
            (2 \<le> length (array rn) \<longrightarrow>
               Internal_KeyAt (rn\<lparr>array := tl (array rn)\<rparr>) 0 = fst (array rn ! 1)))"
proof (intro conjI allI impI)
  fix nl rl assume k: "node = LeafPage nl \<and> right = LeafPage rl"
  have m: "0 \<le> GetMinSize rl"
    using assms(12) k by (simp add: Page_GetMinSize_def)
  show "RedistributeOrMerge t node_pid =
              Some (t\<lparr>tree_pages := (tree_pages t)
                      (right_pid \<mapsto> LeafPage (rl\<lparr>array := tl (array rl)\<rparr>),
                       node_pid \<mapsto> LeafPage (nl\<lparr>array := array nl @ [hd (array rl)]\<rparr>),
                       parent_pid \<mapsto> InternalPage (parent\<lparr>array := (array parent)
                          [nat (index + 1) :=
                             (Leaf_KeyAt (rl\<lparr>array := tl (array rl)\<rparr>) 0, right_pid)]\<rparr>))\<rparr>)"
    using assms k m
    by (intro borrow_right_leaf)
       (simp_all add: GetParentPageId_def GetPageId_def Page_GetSize_def Page_GetMinSize_def)
  show "2 \<le> length (array rl) \<Longrightarrow>
          Leaf_KeyAt (rl\<lparr>array := tl (array rl)\<rparr>) 0 = fst (array rl ! 1)"
    by (simp add: Leaf_KeyAt_def GetSize_def nth_tl)
next
  fix nn rn child
  assume k: "node = InternalPage nn \<and> right = InternalPage rn \<and>
            parent_pid \<noteq> node_pid \<and> parent_pid \<noteq> right_pid \<and>
            tree_pages t (snd (hd (array rn))) = Some child \<and>
            snd (hd (array rn)) \<notin> {node_pid, right_pid, parent_pid}"
  have m: "0 \<le> GetMinSize rn"
    using assms(12) k by (simp add: Page_GetMinSize_def)
  show "RedistributeOrMerge t node_pid =
              Some (t\<lparr>tree_pages := (tree_pages t)
                      (right_pid \<mapsto> InternalPage (rn\<lparr>array := tl (array rn)\<rparr>),
                       node_pid \<mapsto> InternalPage (nn\<lparr>array := array nn @ [hd (array rn)]\<rparr>),
                       snd (hd (array rn)) \<mapsto> SetParentPageId child (page_id nn),
                       parent_pid \<mapsto> InternalPage (parent\<lparr>array := (array parent)
                          [nat (index + 1) :=
                             (Internal_KeyAt (rn\<lparr>array := tl (array rn)\<rparr>) 0, right_pid)]\<rparr>))\<rparr>)"
    using assms k m
    by (intro borrow_right_internal)
       (simp_all add: GetParentPageId_def GetPageId_def Page_GetSize_def Page_GetMinSize_def)
  show "2 \<le> length (array rn) \<Longrightarrow>
          Internal_KeyAt (rn\<lparr>array := tl (array rn)\<rparr>) 0 = fst (array rn ! 1)"
    by (simp add: Internal_KeyAt_def GetSize_def nth_tl)
qed

theorem borrow_from_right_sets_separator_witness:
  "map_option (\<lambda>t'. (tree_pages t' 1, tree_pages t' 2, tree_pages t' 3, root_page_id t'))
     (RedistributeOrMerge borrow_leaf_example 1) =
     Some (Some (LeafPage \<lparr>max_size = 4, parent_page_id = 3, page_id = 1, next_page_id = 2,
                           array = [(10, RID 0 10), (30, RID 0 30)]\<rparr>),
           Some (LeafPage \<lparr>max_size = 4, parent_page_id = 3, page_id = 2,
                           next_page_id = INVALID_PAGE_ID,
                           array = [(40, RID 0 40), (50, RID 0 50)]\<rparr>),
           Some (InternalPage \<lparr>max_size = 4, parent_page_id = INVALID_PAGE_ID, page_id = 3,
                               next_page_id = INVALID_PAGE_ID, array = [(0, 1), (40, 2)]\<rparr>),
           3) \<and>
   map_option (\<lambda>t'. (tree_pages t' 7, tree_pages t' 8, tree_pages t' 9, tree_pages t' 4))
     (RedistributeOrMerge borrow_internal_example 7) =
     Some (Some (InternalPage \<lparr>max_size = 4, parent_page_id = 9, page_id = 7,
                               next_page_id = INVALID_PAGE_ID, array = [(0, 1), (50, 4)]\<rparr>),
           Some (InternalPage \<lparr>max_size = 4, parent_page_id = 9, page_id = 8,
                               next_page_id = INVALID_PAGE_ID, array = [(60, 5), (70, 6)]\<rparr>),
           Some (InternalPage \<lparr>max_size = 4, parent_page_id = INVALID_PAGE_ID, page_id = 9,
                               next_page_id = INVALID_PAGE_ID, array = [(0, 7), (60, 8)]\<rparr>),
           Some (LeafPage \<lparr>max_size = 4, parent_page_id = 7, page_id = 4, next_page_id = 5,
                           array = [(50, RID 0 50), (55, RID 0 55)]\<rparr>))"
proof -
  let ?n1 = "\<lparr>max_size = 4, parent_page_id = 3, page_id = 1, next_page_id = 2,
               array = [(10, RID 0 10)]\<rparr>"
  let ?r1 = "\<lparr>max_size = 4, parent_page_id = 3, page_id = 2, next_page_id = INVALID_PAGE_ID,
               array = [(30, RID 0 30), (40, RID 0 40), (50, RID 0 50)]\<rparr>"
  let ?p1 = "\<lparr>max_size = 4, parent_page_id = INVALID_PAGE_ID, page_id = 3,
               next_page_id = INVALID_PAGE_ID, array = [(0, 1), (30, 2)]\<rparr>
             :: page_id_t BPlusTreePage"
  have a: "RedistributeOrMerge borrow_leaf_example 1 =
             Some (borrow_leaf_example\<lparr>tree_pages := (tree_pages borrow_leaf_example)
                      (2 \<mapsto> LeafPage (?r1\<lparr>array := tl (array ?r1)\<rparr>),
                       1 \<mapsto> LeafPage (?n1\<lparr>array := array ?n1 @ [hd (array ?r1)]\<rparr>),
                       3 \<mapsto> InternalPage (?p1\<lparr>array := (array ?p1)
                          [nat (0 + 1) :=
                             (Leaf_KeyAt (?r1\<lparr>array := tl (array ?r1)\<rparr>) 0, 2)]\<rparr>))\<rparr>)"
    using borrow_from_right_sets_separator[where t = borrow_leaf_example and node_pid = 1
        and node = "LeafPage ?n1" and parent_pid = 3 and parent = ?p1 and index = 0
        and right_pid = 2 and right = "LeafPage ?r1"]
    by (simp add: borrow_leaf_example_def GetParentPageId_def GetPageId_def ValueIndex_def
        GetSize_def Internal_ValueAt_def Page_GetSize_def Page_GetMinSize_def GetMinSize_def
        INVALID_PAGE_ID_def)
  let ?n2 = "\<lparr>max_size = 4, parent_page_id = 9, page_id = 7,
               next_page_id = INVALID_PAGE_ID, array = [(0, 1)]\<rparr> :: page_id_t BPlusTreePage"
  let ?r2 = "\<lparr>max_size = 4, parent_page_id = 9, page_id = 8,
               next_page_id = INVALID_PAGE_ID, array = [(50, 4), (60, 5), (70, 6)]\<rparr>
             :: page_id_t BPlusTreePage"
  let ?p2 = "\<lparr>max_size = 4, parent_page_id = INVALID_PAGE_ID, page_id = 9,
               next_page_id = INVALID_PAGE_ID, array = [(0, 7), (50, 8)]\<rparr>
             :: page_id_t BPlusTreePage"
  let ?c2 = "LeafPage \<lparr>max_size = 4, parent_page_id = 8, page_id = 4, next_page_id = 5,
                       array = [(50, RID 0 50), (55, RID 0 55)]\<rparr>"
  have b: "RedistributeOrMerge borrow_internal_example 7 =
             Some (borrow_internal_example\<lparr>tree_pages := (tree_pages borrow_internal_example)
                      (8 \<mapsto> InternalPage (?r2\<lparr>array := tl (array ?r2)\<rparr>),
                       7 \<mapsto> InternalPage (?n2\<lparr>array := array ?n2 @ [hd (array ?r2)]\<rparr>),
                       snd (hd (array ?r2)) \<mapsto> SetParentPageId ?c2 (page_id ?n2),
                       9 \<mapsto> InternalPage (?p2\<lparr>array := (array ?p2)
                          [nat (0 + 1) :=
                             (Internal_KeyAt (?r2\<lparr>array := tl (array ?r2)\<rparr>) 0, 8)]\<rparr>))\<rparr>)"
    using borrow_from_right_sets_separator[where t = borrow_internal_example and node_pid = 7
        and node = "InternalPage ?n2" and parent_pid = 9 and parent = ?p2 and index = 0
        and right_pid = 8 and right = "InternalPage ?r2"]
    by (simp add: borrow_internal_example_def GetParentPageId_def GetPageId_def ValueIndex_def
        GetSize_def Internal_ValueAt_def Page_GetSize_def Page_GetMinSize_def GetMinSize_def
        INVALID_PAGE_ID_def)
  show ?thesis
    unfolding a b
    by (simp add: borrow_leaf_example_def borrow_internal_example_def Leaf_KeyAt_def
        Internal_KeyAt_def GetSize_def SetParentPageId_def INVALID_PAGE_ID_def)
qed

section \<open>Insert, then remove everything\<close>


section \<open>Unique keys\<close>

text \<open>
  On a leaf whose keys are strictly increasing, \<open>Insert\<close> of a key the leaf holds returns
  \<open>-1\<close> and leaves the leaf as it is (\<open>Leaf_Insert_present\<close>), and \<open>Insert\<close> of an absent key
  returns the new size and puts the entry in at its sorted position (\<open>Leaf_Insert_absent\<close>).
  On a tree in which the search finds the key, \<open>Insert\<close> returns false and changes no page
  (\<open>GetValue_found_Insert_false\<close>). The search does not find every key that the tree
  stores, though.

  \<open>InsertIntoParent\<close> first overwrites the parent's key of the split page with the
  \<open>old_key\<close> it is given. For a split leaf that is the leaf's first key; for a split internal
  page the caller passes \<^verbatim>\<open>parent_node->KeyAt(0)\<close>, the key of slot 0, which \<open>Lookup\<close> and
  \<open>KeyIndex\<close> never read (\<open>KeyIndex\<close> documents it as invalid) and which holds whatever first
  key the leftmost child had at its last split. Once the first key of that child has been
  removed and smaller keys have been inserted, the slot 0 key is above keys that the page
  stores, and the split of the page raises its separator in the grandparent above them.
\<close>

text \<open>
  Claim C3 asks, for every tree containing a key \<open>k\<close>, that \<open>Insert\<close> of \<open>k\<close> returns false and
  leaves the contents of the tree unchanged. With leaf capacity 4 and internal capacity 4:
  after inserting 7, 13, 2, 6, 12, 4, 5, 3, 14, 18, 1, 15, removing 7 and inserting 11, 17,
  10, 9, 8 (every insertion returns true) the search finds key 8, in leaf 2 under the
  internal page 7, whose separator in the root is 7 and whose slot 0 key is 9. Inserting 16
  splits page 7 and sets its separator in the root to 9: leaf 2 still stores key 8, the
  search for 8 now ends in leaf 4 and returns false, and \<open>Insert\<close> of key 8 returns true and
  stores a second entry for 8 in leaf 4.
\<close>

theorem Insert_accepts_stored_key:
  "do { (ok1, t1) \<leftarrow> Insert_all (BPlusTree_init 4 4 1) [7, 13, 2, 6, 12, 4, 5, 3, 14, 18, 1, 15];
        t2 \<leftarrow> Remove_all t1 [7];
        (ok2, t3) \<leftarrow> Insert_all t2 [11, 17, 10, 9, 8];
        (ok3, t4) \<leftarrow> Tree_Insert t3 16 (RID 0 16);
        (ok4, t5) \<leftarrow> Tree_Insert t4 8 (RID 0 99);
        Some (ok1 \<and> ok2 \<and> ok3,
              GetValue t3 8, root_page_id t3, tree_pages t3 8,
              GetValue t4 8, root_page_id t4, tree_pages t4 8, tree_pages t4 7, tree_pages t4 2,
              ok4, tree_pages t5 2, tree_pages t5 4) } =
   Some (True,
         Some (Some (RID 0 8)), 8,
         Some (InternalPage \<lparr>max_size = 4, parent_page_id = -1, page_id = 8,
                             next_page_id = -1, array = [(0, 3), (7, 7)]\<rparr>),
         Some None, 8,
         Some (InternalPage \<lparr>max_size = 4, parent_page_id = -1, page_id = 8,
                             next_page_id = -1, array = [(0, 3), (9, 7), (15, 13)]\<rparr>),
         Some (InternalPage \<lparr>max_size = 4, parent_page_id = 8, page_id = 7,
                             next_page_id = -1, array = [(9, 2), (11, 11), (13, 10)]\<rparr>),
         Some (LeafPage \<lparr>max_size = 4, parent_page_id = 7, page_id = 2, next_page_id = 11,
                         array = [(8, RID 0 8), (9, RID 0 9), (10, RID 0 10)]\<rparr>),
         True,
         Some (LeafPage \<lparr>max_size = 4, parent_page_id = 7, page_id = 2, next_page_id = 11,
                         array = [(8, RID 0 8), (9, RID 0 9), (10, RID 0 10)]\<rparr>),
         Some (LeafPage \<lparr>max_size = 4, parent_page_id = 3, page_id = 4, next_page_id = 2,
                         array = [(5, RID 0 5), (6, RID 0 6), (8, RID 0 99)]\<rparr>))"
  by code_simp

subsection \<open>Extendible hash table\<close>

lemma low_bits_eq_take_bit: "(x::nat) AND (push_bit n 1 - 1) = take_bit n x"
  by (simp add: take_bit_eq_mask mask_eq_exp_minus_1)

lemma test_bit_iff: "drop_bit n (x::nat) AND 1 \<noteq> 0 \<longleftrightarrow> bit x n"
  by (simp add: and_one_eq bit_iff_odd_drop_bit odd_iff_mod_2_eq_one)

lemma of_bool_plus_eq_iff:
  "x < (p::nat) \<Longrightarrow> y < p \<Longrightarrow> (p * of_bool c + x = p * of_bool d + y) \<longleftrightarrow> (x = y \<and> c = d)"
  by (cases c; cases d) auto

lemma take_bit_Suc_eq_iff:
  "take_bit (Suc n) (a::nat) = take_bit (Suc n) b \<longleftrightarrow>
     take_bit n a = take_bit n b \<and> bit a n = bit b n"
  unfolding take_bit_Suc_from_most[of n a] take_bit_Suc_from_most[of n b]
  by (rule of_bool_plus_eq_iff) simp_all

lemma take_bit_le_eq:
  "take_bit n (a::nat) = take_bit n b \<Longrightarrow> m \<le> n \<Longrightarrow> take_bit m a = take_bit m b"
  by (metis min.absorb1 take_bit_take_bit)

lemma IndexOf_take_bit:
  "IndexOf h t key = Some idx \<Longrightarrow> idx = take_bit (global_depth t) (h key)"
  unfolding IndexOf_def low_bits_eq_take_bit by (simp split: if_splits)

lemma SplitBucket_dir_Cons:
  "SplitBucket_dir bucket new_bucket old_depth i (d # ds) =
     (if d = bucket \<and> bit i old_depth then new_bucket else d)
       # SplitBucket_dir bucket new_bucket old_depth (i + 1) ds"
  unfolding SplitBucket_dir.simps test_bit_iff ..

lemma SplitBucket_items_Cons:
  "SplitBucket_items h old_depth (item # rest) new_bucket =
     (if bit (h (fst item)) old_depth
      then SplitBucket_items h old_depth rest
             (snd (Bucket_Insert new_bucket (fst item) (snd item)))
      else (let (kept, nb) = SplitBucket_items h old_depth rest new_bucket
            in (item # kept, nb)))"
  unfolding SplitBucket_items.simps test_bit_iff ..

declare SplitBucket_dir.simps(2) [simp del] SplitBucket_items.simps(2) [simp del]
declare SplitBucket_dir_Cons [simp] SplitBucket_items_Cons [simp]

lemma SplitBucket_dir_length:
  "length (SplitBucket_dir b nb od i ds) = length ds"
  by (induction ds arbitrary: i) simp_all

lemma SplitBucket_dir_nth:
  "j < length ds \<Longrightarrow>
   SplitBucket_dir b nb od i ds ! j =
     (if ds ! j = b \<and> bit (i + j) od then nb else ds ! j)"
proof (induction ds arbitrary: i j)
  case Nil
  then show ?case by simp
next
  case (Cons d ds)
  show ?case
  proof (cases j)
    case 0
    then show ?thesis by simp
  next
    case (Suc j')
    then show ?thesis using Cons.prems Cons.IH[of j' "i + 1"] by simp
  qed
qed

lemma Bucket_Insert_keys:
  "fst ` set (items (snd (Bucket_Insert b key val))) \<subseteq> insert key (fst ` set (items b))"
  by (auto simp add: Bucket_Insert_def dom_update)

lemma Bucket_Insert_depth: "depth (snd (Bucket_Insert b key val)) = depth b"
  by (simp add: Bucket_Insert_def)

lemma SplitBucket_items_spec:
  "SplitBucket_items h od xs nb = (kept, nb') \<Longrightarrow>
     depth nb' = depth nb \<and>
     set kept \<subseteq> {x \<in> set xs. \<not> bit (h (fst x)) od} \<and>
     fst ` set (items nb') \<subseteq> fst ` set (items nb) \<union> {k \<in> fst ` set xs. bit (h k) od}"
proof (induction xs arbitrary: nb kept nb')
  case Nil
  then show ?case by simp
next
  case (Cons x xs)
  show ?case
  proof (cases "bit (h (fst x)) od")
    case True
    with Cons.prems have eq: "SplitBucket_items h od xs (snd (Bucket_Insert nb (fst x) (snd x))) = (kept, nb')"
      by simp
    note IH = Cons.IH[OF eq]
    have "depth nb' = depth nb"
      using IH by (simp add: Bucket_Insert_depth)
    moreover have "set kept \<subseteq> {y \<in> set (x # xs). \<not> bit (h (fst y)) od}"
      using IH by auto
    moreover have "fst ` set (items nb') \<subseteq>
        fst ` set (items nb) \<union> {k \<in> fst ` set (x # xs). bit (h k) od}"
    proof
      fix k assume "k \<in> fst ` set (items nb')"
      with IH have "k \<in> fst ` set (items (snd (Bucket_Insert nb (fst x) (snd x)))) \<or>
          k \<in> {k \<in> fst ` set xs. bit (h k) od}"
        by blast
      with Bucket_Insert_keys[of nb "fst x" "snd x"]
      have "k = fst x \<or> k \<in> fst ` set (items nb) \<or> k \<in> {k \<in> fst ` set xs. bit (h k) od}"
        by blast
      with True show "k \<in> fst ` set (items nb) \<union> {k \<in> fst ` set (x # xs). bit (h k) od}"
        by auto
    qed
    ultimately show ?thesis by blast
  next
    case False
    obtain kept0 nb0 where r: "SplitBucket_items h od xs nb = (kept0, nb0)"
      by (cases "SplitBucket_items h od xs nb")
    with Cons.prems False have "kept = x # kept0" "nb' = nb0"
      by simp_all
    with Cons.IH[OF r] False show ?thesis by auto
  qed
qed


lemma hash_inv_iff:
  "hash_inv h t \<longleftrightarrow>
     length (dir t) = 2 ^ global_depth t \<and>
     (\<forall>i < length (dir t).
        dir t ! i < length (buckets t) \<and>
        depth (buckets t ! (dir t ! i)) \<le> global_depth t \<and>
        (\<forall>k \<in> fst ` set (items (buckets t ! (dir t ! i))).
           take_bit (depth (buckets t ! (dir t ! i))) (h k) =
           take_bit (depth (buckets t ! (dir t ! i))) i) \<and>
        (\<forall>j < length (dir t). dir t ! j = dir t ! i \<longrightarrow>
           take_bit (depth (buckets t ! (dir t ! i))) j =
           take_bit (depth (buckets t ! (dir t ! i))) i))"
  unfolding hash_inv_def low_bits_eq_take_bit ..

lemma hash_invD:
  assumes "hash_inv h t" and "i < length (dir t)"
  shows "dir t ! i < length (buckets t)"
    and "depth (buckets t ! (dir t ! i)) \<le> global_depth t"
    and "k \<in> fst ` set (items (buckets t ! (dir t ! i))) \<Longrightarrow>
           take_bit (depth (buckets t ! (dir t ! i))) (h k) =
           take_bit (depth (buckets t ! (dir t ! i))) i"
    and "j < length (dir t) \<Longrightarrow> dir t ! j = dir t ! i \<Longrightarrow>
           take_bit (depth (buckets t ! (dir t ! i))) j =
           take_bit (depth (buckets t ! (dir t ! i))) i"
  using assms unfolding hash_inv_iff by blast+

lemma hash_inv_length: "hash_inv h t \<Longrightarrow> length (dir t) = 2 ^ global_depth t"
  unfolding hash_inv_iff by blast

lemma hash_invI:
  assumes "length (dir t) = 2 ^ global_depth t"
    and "\<And>i. i < length (dir t) \<Longrightarrow> dir t ! i < length (buckets t)"
    and "\<And>i. i < length (dir t) \<Longrightarrow> depth (buckets t ! (dir t ! i)) \<le> global_depth t"
    and "\<And>i k. i < length (dir t) \<Longrightarrow> k \<in> fst ` set (items (buckets t ! (dir t ! i))) \<Longrightarrow>
           take_bit (depth (buckets t ! (dir t ! i))) (h k) =
           take_bit (depth (buckets t ! (dir t ! i))) i"
    and "\<And>i j. i < length (dir t) \<Longrightarrow> j < length (dir t) \<Longrightarrow> dir t ! j = dir t ! i \<Longrightarrow>
           take_bit (depth (buckets t ! (dir t ! i))) j =
           take_bit (depth (buckets t ! (dir t ! i))) i"
  shows "hash_inv h t"
  unfolding hash_inv_iff using assms by blast

lemma hash_inv_init: "hash_inv h (ExtendibleHashTable_init bsz)"
  by (simp add: hash_inv_iff ExtendibleHashTable_init_def)

lemma IndexOf_less:
  "hash_inv h t \<Longrightarrow> IndexOf h t key = Some idx \<Longrightarrow> idx < length (dir t)"
  using IndexOf_take_bit[of h t key idx] by (simp add: hash_inv_length)

lemma remove_first_key_subset: "set (remove_first_key key xs) \<subseteq> set xs"
  by (induction xs) auto

lemma Bucket_Remove_spec:
  "depth (snd (Bucket_Remove b key)) = depth b"
  "fst ` set (items (snd (Bucket_Remove b key))) \<subseteq> fst ` set (items b)"
  using remove_first_key_subset[of key "items b"]
  by (auto simp add: Bucket_Remove_def)

lemma hash_inv_bucket_update:
  assumes inv: "hash_inv h t"
    and idx: "idx < length (dir t)"
    and d: "depth b = depth (buckets t ! (dir t ! idx))"
    and keys: "\<And>k. k \<in> fst ` set (items b) \<Longrightarrow>
             k \<in> fst ` set (items (buckets t ! (dir t ! idx))) \<or>
             take_bit (global_depth t) (h k) = idx"
  shows "hash_inv h (t\<lparr>buckets := (buckets t)[dir t ! idx := b]\<rparr>)"
proof (rule hash_invI)
  let ?t = "t\<lparr>buckets := (buckets t)[dir t ! idx := b]\<rparr>"
  let ?B = "dir t ! idx"
  note D = hash_invD[OF inv]
  show "length (dir ?t) = 2 ^ global_depth ?t"
    using hash_inv_length[OF inv] by simp
  fix i assume "i < length (dir ?t)"
  then have i: "i < length (dir t)" by simp
  show "dir ?t ! i < length (buckets ?t)"
    using D(1)[OF i] by simp
  have dep: "depth (buckets ?t ! (dir ?t ! i)) = depth (buckets t ! (dir t ! i))"
    using D(1)[OF i] D(1)[OF idx] d by (cases "dir t ! i = ?B") simp_all
  show "depth (buckets ?t ! (dir ?t ! i)) \<le> global_depth ?t"
    using D(2)[OF i] dep by simp
  {
    fix k assume k: "k \<in> fst ` set (items (buckets ?t ! (dir ?t ! i)))"
    have "take_bit (depth (buckets t ! (dir t ! i))) (h k) =
          take_bit (depth (buckets t ! (dir t ! i))) i"
    proof (cases "dir t ! i = ?B")
      case False
      with k D(1)[OF i] have "k \<in> fst ` set (items (buckets t ! (dir t ! i)))" by simp
      then show ?thesis by (rule D(3)[OF i])
    next
      case True
      with k D(1)[OF idx] have kb: "k \<in> fst ` set (items b)" by simp
      from keys[OF kb] show ?thesis
      proof
        assume "k \<in> fst ` set (items (buckets t ! (dir t ! idx)))"
        then have "k \<in> fst ` set (items (buckets t ! (dir t ! i)))" using True by simp
        then show ?thesis by (rule D(3)[OF i])
      next
        assume e: "take_bit (global_depth t) (h k) = idx"
        have "take_bit (depth (buckets t ! (dir t ! i))) idx =
              take_bit (depth (buckets t ! (dir t ! i))) i"
          using D(4)[OF i idx] True by simp
        moreover have "take_bit (depth (buckets t ! (dir t ! i))) idx =
              take_bit (depth (buckets t ! (dir t ! i))) (h k)"
          using D(2)[OF i] e[symmetric] by (simp add: min_def)
        ultimately show ?thesis by simp
      qed
    qed
    then show "take_bit (depth (buckets ?t ! (dir ?t ! i))) (h k) =
          take_bit (depth (buckets ?t ! (dir ?t ! i))) i"
      using dep by simp
  }
  fix j assume "j < length (dir ?t)" and "dir ?t ! j = dir ?t ! i"
  then show "take_bit (depth (buckets ?t ! (dir ?t ! i))) j =
          take_bit (depth (buckets ?t ! (dir ?t ! i))) i"
    using D(4)[OF i, of j] dep by simp
qed

lemma Hash_Remove_hash_inv:
  assumes inv: "hash_inv h t" and rm: "Hash_Remove h t key = Some (found, t')"
  shows "hash_inv h t'"
proof -
  from rm obtain idx where idx: "IndexOf h t key = Some idx"
    by (cases "IndexOf h t key") (simp_all add: Hash_Remove_def)
  let ?b = "snd (Bucket_Remove (buckets t ! (dir t ! idx)) key)"
  have eq: "t' = t\<lparr>buckets := (buckets t)[dir t ! idx := ?b]\<rparr>"
    using rm idx by (simp add: Hash_Remove_def Let_def split_beta)
  show ?thesis
    unfolding eq
    using Bucket_Remove_spec[of "buckets t ! (dir t ! idx)" key]
    by (intro hash_inv_bucket_update[OF inv IndexOf_less[OF inv idx]]) auto
qed

lemma Bucket_Insert_hash_inv:
  assumes inv: "hash_inv h t" and idx: "IndexOf h t key = Some idx"
  shows "hash_inv h (t\<lparr>buckets := (buckets t)[dir t ! idx :=
           snd (Bucket_Insert (buckets t ! (dir t ! idx)) key val)]\<rparr>)"
  using Bucket_Insert_keys[of "buckets t ! (dir t ! idx)" key val] IndexOf_take_bit[OF idx]
  by (intro hash_inv_bucket_update[OF inv IndexOf_less[OF inv idx]])
     (auto simp add: Bucket_Insert_depth)

lemma hash_inv_double:
  assumes inv: "hash_inv h t"
  shows "hash_inv h (t\<lparr>global_depth := global_depth t + 1, dir := dir t @ dir t\<rparr>)"
proof (rule hash_invI)
  let ?t = "t\<lparr>global_depth := global_depth t + 1, dir := dir t @ dir t\<rparr>"
  let ?n = "length (dir t)"
  note D = hash_invD[OF inv]
  note len = hash_inv_length[OF inv]
  have pos: "0 < ?n" using len by simp
  show "length (dir ?t) = 2 ^ global_depth ?t"
    using len by simp
  have nth: "dir ?t ! i = dir t ! (i mod ?n)" if "i < length (dir ?t)" for i
    using that by (cases "i < ?n") (simp_all add: nth_append le_mod_geq)
  have low: "take_bit d (i mod ?n) = take_bit d i" if "d \<le> global_depth t" for i d
    using that unfolding len take_bit_eq_mod[symmetric] by (simp add: min_def)
  have buckets: "buckets ?t = buckets t" by simp
  fix i assume i: "i < length (dir ?t)"
  have i': "i mod ?n < ?n" using pos by simp
  show "dir ?t ! i < length (buckets ?t)"
    using D(1)[OF i'] nth[OF i] by simp
  show "depth (buckets ?t ! (dir ?t ! i)) \<le> global_depth ?t"
    using D(2)[OF i'] nth[OF i] by simp
  {
    fix k assume "k \<in> fst ` set (items (buckets ?t ! (dir ?t ! i)))"
    then have "k \<in> fst ` set (items (buckets t ! (dir t ! (i mod ?n))))"
      using nth[OF i] by simp
    from D(3)[OF i' this] low[OF D(2)[OF i'], of i]
    show "take_bit (depth (buckets ?t ! (dir ?t ! i))) (h k) =
          take_bit (depth (buckets ?t ! (dir ?t ! i))) i"
      using nth[OF i] by simp
  }
  fix j assume j: "j < length (dir ?t)" and e: "dir ?t ! j = dir ?t ! i"
  have j': "j mod ?n < ?n" using pos by simp
  have "dir t ! (j mod ?n) = dir t ! (i mod ?n)"
    using e nth[OF i] nth[OF j] by simp
  from D(4)[OF i' j' this] low[OF D(2)[OF i'], of i] low[OF D(2)[OF i'], of j]
  show "take_bit (depth (buckets ?t ! (dir ?t ! i))) j =
        take_bit (depth (buckets ?t ! (dir ?t ! i))) i"
    using nth[OF i] by simp
qed

lemma SplitBucket_hash_inv:
  assumes inv: "hash_inv h t"
    and idx: "idx < length (dir t)"
    and lt: "depth (buckets t ! (dir t ! idx)) < global_depth t"
  shows "hash_inv h (SplitBucket h t (dir t ! idx) idx)"
proof -
  let ?B = "dir t ! idx"
  let ?b = "buckets t ! ?B"
  let ?od = "depth ?b"
  let ?new = "\<lparr>bucket_capacity = bucket_size t, depth = ?od + 1, items = []\<rparr>"
  let ?N = "length (buckets t)"
  obtain kept nb where sp: "SplitBucket_items h ?od (items ?b) ?new = (kept, nb)"
    by (cases "SplitBucket_items h ?od (items ?b) ?new")
  let ?dir = "SplitBucket_dir ?B ?N ?od 0 (dir t)"
  let ?bs = "(buckets t)[?B := ?b\<lparr>depth := ?od + 1, items := kept\<rparr>] @ [nb]"
  let ?t = "t\<lparr>num_buckets := num_buckets t + 1, buckets := ?bs, dir := ?dir\<rparr>"
  have eq: "SplitBucket h t ?B idx = ?t"
    using sp by (simp add: SplitBucket_def Let_def)
  note D = hash_invD[OF inv]
  note S = SplitBucket_items_spec[OF sp]
  have nbd: "depth nb = ?od + 1" using S by simp
  have nbk: "k \<in> fst ` set (items ?b) \<and> bit (h k) ?od" if "k \<in> fst ` set (items nb)" for k
    using S that by auto
  have keptk: "k \<in> fst ` set (items ?b) \<and> \<not> bit (h k) ?od" if "k \<in> fst ` set kept" for k
    using S that by auto
  have B: "?B < ?N" by (rule D(1)[OF idx])
  have dirn: "?dir ! i = (if dir t ! i = ?B \<and> bit i ?od then ?N else dir t ! i)"
    if "i < length (dir t)" for i
    using SplitBucket_dir_nth[OF that, of ?B ?N ?od 0] by simp
  have bs_new: "?bs ! ?N = nb" by (simp add: nth_append)
  have bs_B: "?bs ! ?B = ?b\<lparr>depth := ?od + 1, items := kept\<rparr>"
    using B by (simp add: nth_append)
  have bs_other: "?bs ! m = buckets t ! m" if "m < ?N" "m \<noteq> ?B" for m
    using that by (simp add: nth_append)
  have "hash_inv h ?t"
  proof (rule hash_invI)
    show "length (dir ?t) = 2 ^ global_depth ?t"
      using hash_inv_length[OF inv] by (simp add: SplitBucket_dir_length)
    fix i assume "i < length (dir ?t)"
    then have i: "i < length (dir t)" by (simp add: SplitBucket_dir_length)
    consider (new) "dir t ! i = ?B" "bit i ?od"
      | (old) "dir t ! i = ?B" "\<not> bit i ?od"
      | (other) "dir t ! i \<noteq> ?B"
      by blast
    then have main: "?dir ! i < length ?bs \<and>
        depth (?bs ! (?dir ! i)) \<le> global_depth t \<and>
        (\<forall>k \<in> fst ` set (items (?bs ! (?dir ! i))).
           take_bit (depth (?bs ! (?dir ! i))) (h k) =
           take_bit (depth (?bs ! (?dir ! i))) i) \<and>
        (\<forall>j < length (dir t). ?dir ! j = ?dir ! i \<longrightarrow>
           take_bit (depth (?bs ! (?dir ! i))) j =
           take_bit (depth (?bs ! (?dir ! i))) i)"
    proof cases
      case new
      have di: "?dir ! i = ?N" using dirn[OF i] new by simp
      have a: "take_bit (Suc ?od) (h k) = take_bit (Suc ?od) i"
        if "k \<in> fst ` set (items nb)" for k
        using nbk[OF that] D(3)[OF i, of k] new by (simp add: take_bit_Suc_eq_iff)
      have b: "take_bit (Suc ?od) j = take_bit (Suc ?od) i"
        if j: "j < length (dir t)" and e: "?dir ! j = ?N" for j
      proof -
        have "dir t ! j = ?B \<and> bit j ?od"
          using e dirn[OF j] D(1)[OF j] by (auto split: if_splits)
        then show ?thesis
          using D(4)[OF i j] new by (simp add: take_bit_Suc_eq_iff)
      qed
      show ?thesis
        unfolding di bs_new nbd using a b lt by simp
    next
      case old
      have di: "?dir ! i = ?B" using dirn[OF i] old by simp
      have a: "take_bit (Suc ?od) (h k) = take_bit (Suc ?od) i"
        if "k \<in> fst ` set kept" for k
        using keptk[OF that] D(3)[OF i, of k] old by (simp add: take_bit_Suc_eq_iff)
      have b: "take_bit (Suc ?od) j = take_bit (Suc ?od) i"
        if j: "j < length (dir t)" and e: "?dir ! j = ?B" for j
      proof -
        have "dir t ! j = ?B \<and> \<not> bit j ?od"
          using e dirn[OF j] B by (auto split: if_splits)
        then show ?thesis
          using D(4)[OF i j] old by (simp add: take_bit_Suc_eq_iff)
      qed
      show ?thesis
        unfolding di bs_B using a b lt B by simp
    next
      case other
      have di: "?dir ! i = dir t ! i" using dirn[OF i] other by simp
      have bi: "?bs ! (dir t ! i) = buckets t ! (dir t ! i)"
        using bs_other[OF D(1)[OF i] other] .
      have b: "take_bit (depth (buckets t ! (dir t ! i))) j =
               take_bit (depth (buckets t ! (dir t ! i))) i"
        if j: "j < length (dir t)" and e: "?dir ! j = dir t ! i" for j
      proof -
        have "dir t ! j = dir t ! i"
          using e dirn[OF j] D(1)[OF i] other by (auto split: if_splits)
        then show ?thesis by (rule D(4)[OF i j])
      qed
      show ?thesis
        unfolding di bi using D(1)[OF i] D(2)[OF i] D(3)[OF i] b by simp
    qed
    have sel: "dir ?t = ?dir" "buckets ?t = ?bs" "global_depth ?t = global_depth t"
      by simp_all
    from main show "dir ?t ! i < length (buckets ?t)"
      unfolding sel by blast
    from main show "depth (buckets ?t ! (dir ?t ! i)) \<le> global_depth ?t"
      unfolding sel by blast
    {
      fix k assume "k \<in> fst ` set (items (buckets ?t ! (dir ?t ! i)))"
      with main show "take_bit (depth (buckets ?t ! (dir ?t ! i))) (h k) =
             take_bit (depth (buckets ?t ! (dir ?t ! i))) i"
        unfolding sel by blast
    }
    fix j assume "j < length (dir ?t)" "dir ?t ! j = dir ?t ! i"
    then have "j < length (dir t)" "?dir ! j = ?dir ! i"
      by (simp_all add: SplitBucket_dir_length)
    with main show "take_bit (depth (buckets ?t ! (dir ?t ! i))) j =
           take_bit (depth (buckets ?t ! (dir ?t ! i))) i"
      unfolding sel by blast
  qed
  then show ?thesis unfolding eq .
qed

lemma Hash_Insert_hash_inv:
  "Hash_Insert h t key val = Some t' \<Longrightarrow> hash_inv h t \<Longrightarrow> hash_inv h t'"
proof (induction rule: Hash_Insert.raw_induct[rotated 1, consumes 1, case_names step])
  case (step Hash_Insert h t key val t')
  note inv = \<open>hash_inv h t\<close>
  from step.hyps obtain idx where io: "IndexOf h t key = Some idx"
    by (cases "IndexOf h t key") simp_all
  let ?B = "dir t ! idx"
  note idx = IndexOf_less[OF inv io]
  obtain ok b where bi: "Bucket_Insert (buckets t ! ?B) key val = (ok, b)"
    by (cases "Bucket_Insert (buckets t ! ?B) key val")
  show ?case
  proof (cases ok)
    case True
    with step.hyps io bi have "t' = t\<lparr>buckets := (buckets t)[?B := b]\<rparr>"
      by (simp add: Let_def)
    then show ?thesis
      using Bucket_Insert_hash_inv[OF inv io, of val] bi by simp
  next
    case False
    let ?t1 = "if depth (buckets t ! ?B) = global_depth t
               then t\<lparr>global_depth := global_depth t + 1, dir := dir t @ dir t\<rparr> else t"
    from False step.hyps io bi
    have rec: "Hash_Insert h (SplitBucket h ?t1 ?B idx) key val = Some t'"
      by (simp add: Let_def)
    have inv1: "hash_inv h ?t1"
      using inv hash_inv_double[OF inv] by simp
    have idx1: "idx < length (dir ?t1)"
      using idx by simp
    have B1: "dir ?t1 ! idx = ?B"
      using idx by (simp add: nth_append)
    have lt1: "depth (buckets ?t1 ! (dir ?t1 ! idx)) < global_depth ?t1"
      unfolding B1 using hash_invD(2)[OF inv idx] by auto
    have "hash_inv h (SplitBucket h ?t1 (dir ?t1 ! idx) idx)"
      by (rule SplitBucket_hash_inv[OF inv1 idx1 lt1])
    then have "hash_inv h (SplitBucket h ?t1 ?B idx)"
      unfolding B1 .
    then show ?thesis
      by (rule step.IH[OF rec])
  qed
qed

lemma Hash_Insert_returns:
  assumes "IndexOf h t key = Some idx"
    and "key \<in> fst ` set (items (buckets t ! (dir t ! idx))) \<or> \<not> IsFull (buckets t ! (dir t ! idx))"
  shows "Hash_Insert h t key val =
           Some (t\<lparr>buckets := (buckets t)[dir t ! idx :=
                    snd (Bucket_Insert (buckets t ! (dir t ! idx)) key val)]\<rparr>)"
proof -
  from assms(2) have "fst (Bucket_Insert (buckets t ! (dir t ! idx)) key val)"
    by (auto simp add: Bucket_Insert_def)
  then show ?thesis
    using assms(1) by (subst Hash_Insert.simps) (simp add: Let_def split_beta)
qed

lemma reachable_hash_inv: "reachable h bsz t \<Longrightarrow> hash_inv h t"
proof (induction rule: reachable.induct)
  case reachable_init
  show ?case by (rule hash_inv_init)
next
  case (reachable_Insert t key val t')
  from reachable_Insert.hyps(2) reachable_Insert.IH show ?case
    by (rule Hash_Insert_hash_inv)
next
  case (reachable_Remove t key found t')
  from reachable_Remove.IH reachable_Remove.hyps(2) show ?case
    by (rule Hash_Remove_hash_inv)
qed

lemma Hash_Insert_all_reachable:
  "reachable h bsz t \<Longrightarrow> Hash_Insert_all h t kvs = Some t' \<Longrightarrow> reachable h bsz t'"
proof (induction kvs arbitrary: t)
  case Nil
  then show ?case by simp
next
  case (Cons kv kvs)
  from Cons.prems(2) obtain t1 where
    i: "Hash_Insert h t (fst kv) (snd kv) = Some t1" and r: "Hash_Insert_all h t1 kvs = Some t'"
    by (cases "Hash_Insert h t (fst kv) (snd kv)") simp_all
  from reachable_Insert[OF Cons.prems(1) i] r show ?case
    by (rule Cons.IH)
qed

lemma hash_table_example_run:
  "Hash_Insert_all nat (ExtendibleHashTable_init 2) [(0, 10), (4, 14), (2, 12), (6, 16)] =
     Some hash_table_example"
  by code_simp

lemma hash_table_example_reachable: "reachable nat 2 hash_table_example"
  using reachable_init hash_table_example_run by (rule Hash_Insert_all_reachable)

text \<open>
  Claim C6: in every state that a sequence of \<open>Insert\<close>, \<open>Remove\<close> and \<open>Find\<close> reaches from the
  initial table, the directory has \<open>2 ^ global_depth\<close> slots, and for every slot \<open>i\<close> the
  bucket of the slot has a local depth of at most the global depth and every key \<open>k\<close> stored
  in it satisfies \<open>hash k & ((1 << local_depth) - 1) = i & ((1 << local_depth) - 1)\<close>.
\<close>

theorem reachable_directory_and_prefix_invariant:
  "reachable h bsz t \<Longrightarrow>
     length (dir t) = 2 ^ global_depth t \<and>
     (\<forall>i < length (dir t).
        dir t ! i < length (buckets t) \<and>
        depth (buckets t ! (dir t ! i)) \<le> global_depth t \<and>
        (\<forall>k \<in> fst ` set (items (buckets t ! (dir t ! i))).
           h k AND (push_bit (depth (buckets t ! (dir t ! i))) 1 - 1) =
           i AND (push_bit (depth (buckets t ! (dir t ! i))) 1 - 1)))"
proof -
  assume "reachable h bsz t"
  then have "hash_inv h t" by (rule reachable_hash_inv)
  then show ?thesis unfolding hash_inv_def by blast
qed

theorem reachable_directory_and_prefix_invariant_witness:
  "reachable nat 2 hash_table_example \<and>
   length (dir hash_table_example) = 2 ^ global_depth hash_table_example \<and>
   length (dir hash_table_example) = 4 \<and>
   dir hash_table_example ! 2 = 2 \<and>
   depth (buckets hash_table_example ! 2) = 2 \<and>
   6 \<in> fst ` set (items (buckets hash_table_example ! 2)) \<and>
   nat 6 AND (push_bit (depth (buckets hash_table_example ! 2)) 1 - 1) =
   2 AND (push_bit (depth (buckets hash_table_example ! 2)) 1 - 1)"
proof -
  note inv = reachable_directory_and_prefix_invariant[OF hash_table_example_reachable]
  have d: "dir hash_table_example ! 2 = 2" "length (dir hash_table_example) = 4"
    "depth (buckets hash_table_example ! 2) = 2"
    "6 \<in> fst ` set (items (buckets hash_table_example ! 2))"
    by (simp_all add: hash_table_example_def)
  from inv have "\<forall>k \<in> fst ` set (items (buckets hash_table_example ! (dir hash_table_example ! 2))).
      nat k AND (push_bit (depth (buckets hash_table_example ! (dir hash_table_example ! 2))) 1 - 1) =
      2 AND (push_bit (depth (buckets hash_table_example ! (dir hash_table_example ! 2))) 1 - 1)"
    using d(2) by simp
  then have "nat 6 AND (push_bit (depth (buckets hash_table_example ! 2)) 1 - 1) =
      2 AND (push_bit (depth (buckets hash_table_example ! 2)) 1 - 1)"
    unfolding d(1) using d(4) by blast
  with inv d hash_table_example_reachable show ?thesis by blast
qed

end
